theory Spec2Isabelle
  imports Main
begin

section \<open>JavaScript strings\<close>

text \<open>
  A JavaScript string is a sequence of UTF-16 code units. A code unit is modelled as a
  natural number; every list of code units below 65536 is a JavaScript string, so a
  property proved for all lists holds for all strings. The string literals of
  \<^verbatim>\<open>script.js\<close> are ASCII and are written as HOL strings, converted by \<open>js\<close>.
\<close>

type_synonym jsstring = "nat list"

definition js :: "string \<Rightarrow> jsstring" where
  "js s = map of_char s"

definition NL :: nat where "NL = 10"
definition LT :: nat where "LT = 60"
definition GT :: nat where "GT = 62"
definition AMP :: nat where "AMP = 38"
definition NBSP :: nat where "NBSP = 160"
definition BACKTICK :: nat where "BACKTICK = 96"
definition ASTERISK :: nat where "ASTERISK = 42"
definition HASH :: nat where "HASH = 35"

text \<open>
  ECMAScript \<open>LineTerminator\<close>: LF, CR, U+2028, U+2029. These are the characters that
  \<^verbatim>\<open>.\<close> does not match and after (before) which \<^verbatim>\<open>^\<close> (\<^verbatim>\<open>$\<close>) matches under the
  \<^verbatim>\<open>m\<close> flag.
\<close>

definition is_line_terminator :: "nat \<Rightarrow> bool" where
  "is_line_terminator c = (c = 10 \<or> c = 13 \<or> c = 8232 \<or> c = 8233)"

text \<open>
  ECMAScript \<open>WhiteSpace\<close> and \<open>LineTerminator\<close> together: the characters matched by
  \<^verbatim>\<open>\s\<close> and stripped by \<^verbatim>\<open>String.prototype.trim\<close>.
\<close>

definition is_space :: "nat \<Rightarrow> bool" where
  "is_space c =
     (c = 9 \<or> c = 10 \<or> c = 11 \<or> c = 12 \<or> c = 13 \<or> c = 32 \<or> c = 160 \<or> c = 5760
      \<or> (8192 \<le> c \<and> c \<le> 8202) \<or> c = 8232 \<or> c = 8233 \<or> c = 8239 \<or> c = 8287
      \<or> c = 12288 \<or> c = 65279)"

definition is_digit :: "nat \<Rightarrow> bool" where
  "is_digit c = (48 \<le> c \<and> c \<le> 57)"

text \<open>\<^verbatim>\<open>String.prototype.trim\<close>.\<close>

definition trim :: "jsstring \<Rightarrow> jsstring" where
  "trim s = rev (dropWhile is_space (rev (dropWhile is_space s)))"

text \<open>\<^verbatim>\<open>String.prototype.startsWith\<close> and \<^verbatim>\<open>String.prototype.includes\<close>.\<close>

fun startsWith :: "jsstring \<Rightarrow> jsstring \<Rightarrow> bool" where
  "startsWith s [] = True"
| "startsWith [] (p # ps) = False"
| "startsWith (c # cs) (p # ps) = (c = p \<and> startsWith cs ps)"

fun includes_str :: "jsstring \<Rightarrow> jsstring \<Rightarrow> bool" where
  "includes_str [] p = (p = [])"
| "includes_str (c # cs) p = (startsWith (c # cs) p \<or> includes_str cs p)"


section \<open>Regular expressions\<close>

text \<open>
  The part of the ECMAScript regular expression language that \<^verbatim>\<open>script.js\<close> uses:
  literals, character classes, greedy and lazy repetition of a character class,
  capture groups, alternation, the anchors \<^verbatim>\<open>^\<close> and \<^verbatim>\<open>$\<close> (with and without the
  \<^verbatim>\<open>m\<close> flag), lookahead \<^verbatim>\<open>(?=...)\<close> and \<^verbatim>\<open>(?!...)\<close>, and the one-character negative
  lookbehind \<^verbatim>\<open>(?<!c)\<close>.
\<close>

datatype cclass =
    Any                       \<comment> \<open>\<^verbatim>\<open>[\s\S]\<close>\<close>
  | Dot                       \<comment> \<open>\<^verbatim>\<open>.\<close>\<close>
  | Space                     \<comment> \<open>\<^verbatim>\<open>\s\<close>\<close>
  | Digit                     \<comment> \<open>\<^verbatim>\<open>\d\<close>\<close>
  | Range char char           \<comment> \<open>\<^verbatim>\<open>[a-z]\<close>\<close>
  | OneOf string              \<comment> \<open>\<^verbatim>\<open>[-*+]\<close>\<close>
  | NoneOf string             \<comment> \<open>\<^verbatim>\<open>[^*]\<close>\<close>
  | Union cclass cclass       \<comment> \<open>\<^verbatim>\<open>[<\s]\<close>\<close>

fun cmatch :: "cclass \<Rightarrow> nat \<Rightarrow> bool" where
  "cmatch Any c = True"
| "cmatch Dot c = (\<not> is_line_terminator c)"
| "cmatch Space c = is_space c"
| "cmatch Digit c = is_digit c"
| "cmatch (Range lo hi) c = (of_char lo \<le> c \<and> c \<le> of_char hi)"
| "cmatch (OneOf l) c = (c \<in> set (js l))"
| "cmatch (NoneOf l) c = (c \<notin> set (js l))"
| "cmatch (Union a b) c = (cmatch a c \<or> cmatch b c)"

datatype item =
    Lit string                \<comment> \<open>a sequence of literal characters\<close>
  | Cls cclass                \<comment> \<open>one character of a class\<close>
  | Star cclass               \<comment> \<open>\<^verbatim>\<open>c*\<close>\<close>
  | Plus cclass               \<comment> \<open>\<^verbatim>\<open>c+\<close>\<close>
  | LazyStar cclass           \<comment> \<open>\<^verbatim>\<open>c*?\<close>\<close>
  | LazyPlus cclass           \<comment> \<open>\<^verbatim>\<open>c+?\<close>\<close>
  | Grp nat "item list"       \<comment> \<open>capture group number n\<close>
  | Alt "item list list"      \<comment> \<open>\<^verbatim>\<open>(?:a|b|c)\<close>\<close>
  | Bol                       \<comment> \<open>\<^verbatim>\<open>^\<close>\<close>
  | Eol                       \<comment> \<open>\<^verbatim>\<open>$\<close>\<close>
  | Ahead "item list"         \<comment> \<open>\<^verbatim>\<open>(?=...)\<close>\<close>
  | NotAhead "item list"      \<comment> \<open>\<^verbatim>\<open>(?!...)\<close>\<close>
  | NotBehind cclass          \<comment> \<open>\<^verbatim>\<open>(?<!c)\<close> for one character c\<close>

type_synonym regex = "item list"

text \<open>
  The state of the backtracking matcher: the input before the current position (the
  nearest character first), the input from the current position on, and the spans
  (start and end index in the whole input) of the capture groups matched so far.
\<close>

datatype mstate = MState (before: jsstring) (rest: jsstring) (caps: "(nat \<times> nat \<times> nat) list")

definition pos :: "mstate \<Rightarrow> nat" where
  "pos st = length (before st)"

fun lit_step :: "jsstring \<Rightarrow> mstate \<Rightarrow> mstate list" where
  "lit_step [] st = [st]"
| "lit_step (p # ps) (MState b [] cs) = []"
| "lit_step (p # ps) (MState b (c # r) cs) =
     (if c = p then lit_step ps (MState (c # b) r cs) else [])"

fun cls_step :: "cclass \<Rightarrow> mstate \<Rightarrow> mstate list" where
  "cls_step cl (MState b [] cs) = []"
| "cls_step cl (MState b (c # r) cs) = (if cmatch cl c then [MState (c # b) r cs] else [])"

text \<open>
  The matcher returns the states after every way of matching, in the order in which a
  backtracking engine tries them: a greedy repetition tries the longest run first, a lazy
  one the shortest.
\<close>

function star_greedy :: "cclass \<Rightarrow> mstate \<Rightarrow> mstate list" where
  "star_greedy cl (MState b [] cs) = [MState b [] cs]"
| "star_greedy cl (MState b (c # r) cs) =
     (if cmatch cl c then star_greedy cl (MState (c # b) r cs) else []) @ [MState b (c # r) cs]"
  by pat_completeness auto
termination
  by (relation "measure (\<lambda>(cl, st). length (rest st))") auto

function star_lazy :: "cclass \<Rightarrow> mstate \<Rightarrow> mstate list" where
  "star_lazy cl (MState b [] cs) = [MState b [] cs]"
| "star_lazy cl (MState b (c # r) cs) =
     MState b (c # r) cs # (if cmatch cl c then star_lazy cl (MState (c # b) r cs) else [])"
  by pat_completeness auto
termination
  by (relation "measure (\<lambda>(cl, st). length (rest st))") auto

definition at_bol :: "bool \<Rightarrow> mstate \<Rightarrow> bool" where
  "at_bol ml st =
     (case before st of [] \<Rightarrow> True | c # _ \<Rightarrow> ml \<and> is_line_terminator c)"

definition at_eol :: "bool \<Rightarrow> mstate \<Rightarrow> bool" where
  "at_eol ml st =
     (case rest st of [] \<Rightarrow> True | c # _ \<Rightarrow> ml \<and> is_line_terminator c)"

definition set_cap :: "nat \<Rightarrow> nat \<Rightarrow> mstate \<Rightarrow> mstate" where
  "set_cap n a st = MState (before st) (rest st) ((n, a, pos st) # caps st)"

fun matches :: "bool \<Rightarrow> item list \<Rightarrow> mstate \<Rightarrow> mstate list"
  and match_item :: "bool \<Rightarrow> item \<Rightarrow> mstate \<Rightarrow> mstate list"
  and match_alts :: "bool \<Rightarrow> item list list \<Rightarrow> mstate \<Rightarrow> mstate list"
where
  "matches ml [] st = [st]"
| "matches ml (i # r) st = concat (map (\<lambda>st'. matches ml r st') (match_item ml i st))"
| "match_item ml (Lit l) st = lit_step (js l) st"
| "match_item ml (Cls cl) st = cls_step cl st"
| "match_item ml (Star cl) st = star_greedy cl st"
| "match_item ml (Plus cl) st = concat (map (star_greedy cl) (cls_step cl st))"
| "match_item ml (LazyStar cl) st = star_lazy cl st"
| "match_item ml (LazyPlus cl) st = concat (map (star_lazy cl) (cls_step cl st))"
| "match_item ml (Grp n r) st = map (set_cap n (pos st)) (matches ml r st)"
| "match_item ml (Alt rs) st = match_alts ml rs st"
| "match_item ml Bol st = (if at_bol ml st then [st] else [])"
| "match_item ml Eol st = (if at_eol ml st then [st] else [])"
| "match_item ml (Ahead r) st =
     (case matches ml r st of [] \<Rightarrow> [] | st' # _ \<Rightarrow> [MState (before st) (rest st) (caps st')])"
| "match_item ml (NotAhead r) st = (case matches ml r st of [] \<Rightarrow> [st] | _ # _ \<Rightarrow> [])"
| "match_item ml (NotBehind cl) st =
     (case before st of [] \<Rightarrow> [st] | c # _ \<Rightarrow> if cmatch cl c then [] else [st])"
| "match_alts ml [] st = []"
| "match_alts ml (r # rs) st = matches ml r st @ match_alts ml rs st"

text \<open>
  The result of a successful match: start and end index of the match and the spans of
  its capture groups.
\<close>

datatype mres = MRes (m_start: nat) (m_end: nat) (m_caps: "(nat \<times> nat \<times> nat) list")

definition match_here :: "bool \<Rightarrow> regex \<Rightarrow> jsstring \<Rightarrow> jsstring \<Rightarrow> mres option" where
  "match_here ml re b r =
     (case matches ml re (MState b r []) of
        [] \<Rightarrow> None
      | st # _ \<Rightarrow> Some (MRes (length b) (pos st) (caps st)))"


section \<open>\<^verbatim>\<open>String.prototype.replace\<close> with a global regular expression\<close>

text \<open>
  A replacement is a sequence of pieces: text that the replacement itself supplies, and
  spans copied from the string being searched (\<^verbatim>\<open>$1\<close>, \<^verbatim>\<open>$&\<close>, or an argument of a
  replacer function).
\<close>

type_synonym span = "nat \<times> nat"

datatype piece = Emit jsstring | Copy span

type_synonym replacer = "jsstring \<Rightarrow> mres \<Rightarrow> piece list"

fun substring :: "'a list \<Rightarrow> span \<Rightarrow> 'a list" where
  "substring s (a, b) = take (b - a) (drop a s)"

fun piece_text :: "jsstring \<Rightarrow> piece \<Rightarrow> jsstring" where
  "piece_text s (Emit l) = l"
| "piece_text s (Copy sp) = substring s sp"

definition pieces_text :: "jsstring \<Rightarrow> piece list \<Rightarrow> jsstring" where
  "pieces_text s ps = concat (map (piece_text s) ps)"

text \<open>The span of capture group n; a group that did not take part is the empty string.\<close>

definition group :: "mres \<Rightarrow> nat \<Rightarrow> span" where
  "group m n = (case map_of (m_caps m) n of None \<Rightarrow> (0, 0) | Some ab \<Rightarrow> ab)"

definition group_text :: "jsstring \<Rightarrow> mres \<Rightarrow> nat \<Rightarrow> jsstring" where
  "group_text s m n = substring s (group m n)"

text \<open>A replacement string: literal text, \<^verbatim>\<open>$n\<close> and \<^verbatim>\<open>$&\<close>.\<close>

datatype tpart = T string | G nat | Whole

fun tpart_piece :: "mres \<Rightarrow> tpart \<Rightarrow> piece" where
  "tpart_piece m (T l) = Emit (js l)"
| "tpart_piece m (G n) = Copy (group m n)"
| "tpart_piece m Whole = Copy (m_start m, m_end m)"

definition template :: "tpart list \<Rightarrow> replacer" where
  "template ts = (\<lambda>s m. map (tpart_piece m) ts)"

text \<open>
  The scan of \<^verbatim>\<open>replace\<close> with the \<^verbatim>\<open>g\<close> flag: at every position not inside an
  earlier match, the leftmost match is the first one the matcher finds there; the
  matched text is replaced and the search goes on after it (one character further after
  an empty match). Matching always looks at the original string. \<open>skip\<close> counts the
  characters still covered by the last match.
\<close>

fun replace_scan ::
  "bool \<Rightarrow> regex \<Rightarrow> replacer \<Rightarrow> jsstring \<Rightarrow> jsstring \<Rightarrow> jsstring \<Rightarrow> nat \<Rightarrow> jsstring" where
  "replace_scan ml re rep s b [] skip =
     (if skip = 0 then
        (case match_here ml re b [] of
           None \<Rightarrow> []
         | Some m \<Rightarrow> pieces_text s (rep s m))
      else [])"
| "replace_scan ml re rep s b (c # r) skip =
     (if skip = 0 then
        (case match_here ml re b (c # r) of
           None \<Rightarrow> c # replace_scan ml re rep s (c # b) r 0
         | Some m \<Rightarrow>
             pieces_text s (rep s m) @
             (if m_end m = m_start m then c # replace_scan ml re rep s (c # b) r 0
              else replace_scan ml re rep s (c # b) r (m_end m - m_start m - 1)))
      else replace_scan ml re rep s (c # b) r (skip - 1))"

definition replace :: "bool \<Rightarrow> regex \<Rightarrow> replacer \<Rightarrow> jsstring \<Rightarrow> jsstring" where
  "replace ml re rep s = replace_scan ml re rep s [] s 0"


section \<open>\<^verbatim>\<open>escapeHtml\<close>\<close>

text \<open>
  \<^verbatim>\<open>escapeHtml\<close> assigns the text to \<^verbatim>\<open>textContent\<close> of a fresh element and reads
  \<^verbatim>\<open>innerHTML\<close> back. The DOM serialises a text node by replacing \<^verbatim>\<open>&\<close>, U+00A0,
  \<^verbatim>\<open><\<close> and \<^verbatim>\<open>>\<close> by \<^verbatim>\<open>&amp;\<close>, \<^verbatim>\<open>&nbsp;\<close>, \<^verbatim>\<open>&lt;\<close> and \<^verbatim>\<open>&gt;\<close>; every other
  character, quotes included, is kept.
\<close>

definition escape_char :: "nat \<Rightarrow> jsstring" where
  "escape_char c =
     (if c = AMP then js ''&amp;''
      else if c = NBSP then js ''&nbsp;''
      else if c = LT then js ''&lt;''
      else if c = GT then js ''&gt;''
      else [c])"

definition escapeHtml :: "jsstring \<Rightarrow> jsstring" where
  "escapeHtml text = concat (map escape_char text)"


section \<open>\<^verbatim>\<open>advancedMarkdownToHtml\<close>\<close>

subsection \<open>The regular expressions, in the order of the source\<close>

text \<open>\<^verbatim>\<open>/```([a-z]*)\n([\s\S]*?)\n```/g\<close>\<close>

definition re_code_block :: regex where
  "re_code_block =
     [Lit ''```'', Grp 1 [Star (Range CHR ''a'' CHR ''z'')], Lit ''\<newline>'',
      Grp 2 [LazyStar Any], Lit ''\<newline>```'']"

text \<open>\<^verbatim>\<open>/`([^`]+)`/g\<close>\<close>

definition re_inline_code :: regex where
  "re_inline_code = [Lit ''`'', Grp 1 [Plus (NoneOf ''`'')], Lit ''`'']"

text \<open>\<^verbatim>\<open>/\*\*([^*]+)\*\*/g\<close>\<close>

definition re_bold :: regex where
  "re_bold = [Lit ''**'', Grp 1 [Plus (NoneOf ''*'')], Lit ''**'']"

text \<open>\<^verbatim>\<open>/\*([^*]+)\*/g\<close>\<close>

definition re_italic :: regex where
  "re_italic = [Lit ''*'', Grp 1 [Plus (NoneOf ''*'')], Lit ''*'']"

text \<open>\<^verbatim>\<open>/^\s*[-*+]\s+(.*?)(?=\n|$)/gm\<close>\<close>

definition re_ul_item :: regex where
  "re_ul_item =
     [Bol, Star Space, Cls (OneOf ''-*+''), Plus Space, Grp 1 [LazyStar Dot],
      Ahead [Alt [[Lit ''\<newline>''], [Eol]]]]"

text \<open>\<^verbatim>\<open>/(<li>.*?<\/li>)\n(<li>)/g\<close>\<close>

definition re_li_join :: regex where
  "re_li_join =
     [Grp 1 [Lit ''<li>'', LazyStar Dot, Lit ''</li>''], Lit ''\<newline>'', Grp 2 [Lit ''<li>'']]"

text \<open>\<^verbatim>\<open>/(^|[^<])<li>/g\<close>\<close>

definition re_li_open :: regex where
  "re_li_open = [Grp 1 [Alt [[Bol], [Cls (NoneOf ''<'')]]], Lit ''<li>'']"

text \<open>\<^verbatim>\<open>/<\/li>(\n|$)(?![<\s]*<li>)/g\<close>\<close>

definition re_li_close :: regex where
  "re_li_close =
     [Lit ''</li>'', Grp 1 [Alt [[Lit ''\<newline>''], [Eol]]],
      NotAhead [Star (Union (OneOf ''<'') Space), Lit ''<li>'']]"

text \<open>\<^verbatim>\<open>/^\s*(\d+)\.\s+(.*?)(?=\n|$)/gm\<close>\<close>

definition re_ol_item :: regex where
  "re_ol_item =
     [Bol, Star Space, Grp 1 [Plus Digit], Lit ''.'', Plus Space, Grp 2 [LazyStar Dot],
      Ahead [Alt [[Lit ''\<newline>''], [Eol]]]]"

text \<open>\<^verbatim>\<open>/(?<!\n)<li>.*?<\/li>\n<li>/g\<close>\<close>

definition re_ol_join :: regex where
  "re_ol_join =
     [NotBehind (OneOf ''\<newline>''), Lit ''<li>'', LazyStar Dot, Lit ''</li>\<newline><li>'']"

text \<open>\<^verbatim>\<open>/^###\s+(.*?)$/gm\<close>, \<^verbatim>\<open>/^##\s+(.*?)$/gm\<close>, \<^verbatim>\<open>/^#\s+(.*?)$/gm\<close>\<close>

definition re_heading :: "string \<Rightarrow> regex" where
  "re_heading hashes = [Bol, Lit hashes, Plus Space, Grp 1 [LazyStar Dot], Eol]"

text \<open>\<^verbatim>\<open>/\n\n([\s\S]+?)(?=\n\n|$)/g\<close>\<close>

definition re_paragraph :: regex where
  "re_paragraph =
     [Lit ''\<newline>\<newline>'', Grp 1 [LazyPlus Any],
      Ahead [Alt [[Lit ''\<newline>\<newline>''], [Eol]]]]"

text \<open>
  \<^verbatim>\<open>/<p>(<(?:h[1-6]|ul|ol|pre|div|blockquote).*?<\/(?:h[1-6]|ul|ol|pre|div|blockquote)>)<\/p>/g\<close>
\<close>

definition block_names :: item where
  "block_names =
     Alt [[Lit ''h'', Cls (Range CHR ''1'' CHR ''6'')], [Lit ''ul''], [Lit ''ol''], [Lit ''pre''],
          [Lit ''div''], [Lit ''blockquote'']]"

definition re_p_unwrap :: regex where
  "re_p_unwrap =
     [Lit ''<p>'',
      Grp 1 [Lit ''<'', block_names, LazyStar Dot, Lit ''</'', block_names, Lit ''>''],
      Lit ''</p>'']"

text \<open>\<^verbatim>\<open>/\n/g\<close>\<close>

definition re_newline :: regex where
  "re_newline = [Lit ''\<newline>'']"

subsection \<open>The two replacer functions\<close>

text \<open>The span of a span's text after \<^verbatim>\<open>trim()\<close>.\<close>

fun trim_span :: "jsstring \<Rightarrow> span \<Rightarrow> span" where
  "trim_span s (a, b) =
     (let t = substring s (a, b);
          lead = length (takeWhile is_space t);
          trail = length (takeWhile is_space (rev (drop lead t)))
      in (a + lead, b - trail))"

text \<open>
  \<^verbatim>\<open>(match, language, code) => { const lang = language ? ` class="language-${language}"` : '';
  return `<pre><code${lang}>${code.trim()}</code></pre>`; }\<close>
\<close>

definition code_block_replacer :: replacer where
  \<open>code_block_replacer s m =
     (let language = group m 1;
          code = group m 2;
          lang = (if substring s language \<noteq> []
                  then [Emit (js '' class="language-''), Copy language, Emit (js ''"'')]
                  else [])
      in [Emit (js ''<pre><code'')] @ lang @
         [Emit (js ''>''), Copy (trim_span s code), Emit (js ''</code></pre>'')])\<close>

text \<open>
  The paragraph replacer: a run that starts with a tag, or contains a closing tag,
  \<^verbatim>\<open><li>\<close> or \<^verbatim>\<open><code>\<close>, is not wrapped.
\<close>

definition paragraph_replacer :: replacer where
  "paragraph_replacer s m =
     (let content = substring s (group m 1)
      in if startsWith (trim content) (js ''<'')
            \<or> includes_str content (js ''</'')
            \<or> includes_str content (js ''<li>'')
            \<or> includes_str content (js ''<code>'')
         then [Emit (js ''\<newline>\<newline>''), Copy (group m 1)]
         else [Emit (js ''\<newline>\<newline><p>''), Copy (group m 1), Emit (js ''</p>'')])"

subsection \<open>The chain of replacements\<close>

text \<open>
  Each step is one \<^verbatim>\<open>html = html.replace(re, replacement)\<close> of the source: the
  \<^verbatim>\<open>m\<close> flag, the regular expression and the replacement.
\<close>

type_synonym step = "bool \<times> regex \<times> replacer"

definition markdown_steps :: "step list" where
  "markdown_steps =
     [(False, re_code_block, code_block_replacer),
      (False, re_inline_code, template [T ''<code>'', G 1, T ''</code>'']),
      (False, re_bold, template [T ''<strong>'', G 1, T ''</strong>'']),
      (False, re_italic, template [T ''<em>'', G 1, T ''</em>'']),
      (True, re_ul_item, template [T ''<li>'', G 1, T ''</li>'']),
      (False, re_li_join, template [G 1, G 2]),
      (False, re_li_open, template [G 1, T ''<ul><li>'']),
      (False, re_li_close, template [T ''</li></ul>'']),
      (True, re_ol_item, template [T ''<li>'', G 2, T ''</li>'']),
      (False, re_ol_join, template [T ''<li>'', Whole]),
      (False, re_li_open, template [G 1, T ''<ol><li>'']),
      (False, re_li_close, template [T ''</li></ol>'']),
      (True, re_heading ''###'', template [T ''<h3>'', G 1, T ''</h3>'']),
      (True, re_heading ''##'', template [T ''<h2>'', G 1, T ''</h2>'']),
      (True, re_heading ''#'', template [T ''<h1>'', G 1, T ''</h1>'']),
      (False, re_paragraph, paragraph_replacer),
      (False, re_p_unwrap, template [G 1]),
      (False, re_newline, template [T ''<br>''])]"

fun run_step :: "jsstring \<Rightarrow> step \<Rightarrow> jsstring" where
  "run_step html (ml, re, rep) = replace ml re rep html"

text \<open>
  The argument of \<^verbatim>\<open>advancedMarkdownToHtml\<close>: a field of the parsed response, which
  may be missing (\<^verbatim>\<open>undefined\<close>), \<^verbatim>\<open>null\<close> or a string. \<^verbatim>\<open>!text\<close> holds for the first
  two and for the empty string.
\<close>

datatype jsval = Undefined | Null | Str jsstring

fun truthy :: "jsval \<Rightarrow> bool" where
  "truthy Undefined = False"
| "truthy Null = False"
| "truthy (Str s) = (s \<noteq> [])"

fun advancedMarkdownToHtml :: "jsval \<Rightarrow> jsstring" where
  "advancedMarkdownToHtml (Str text) =
     (if text = [] then []
      else trim (foldl run_step (escapeHtml text) markdown_steps))"
| "advancedMarkdownToHtml Undefined = []"
| "advancedMarkdownToHtml Null = []"


section \<open>The page and its handlers\<close>

text \<open>
  The part of the page that the handlers of \<^verbatim>\<open>script.js\<close> read and write: the children
  of \<^verbatim>\<open>.chat-history\<close> (the transcript), the error toasts shown so far, the value of
  the message input, the global \<^verbatim>\<open>selectedImage\<close>, the loading indicator, the submit
  button and the requests sent to \<^verbatim>\<open>/api/solve\<close>. Focus, scrolling, animation styles,
  the removal of a toast after three seconds and the syntax highlighting of an appended
  message by Prism (when that library is loaded) are left out.
\<close>

record element =
  className :: jsstring
  innerHTML :: jsstring

datatype image_file = File (file_type: jsstring)

record request =
  text_problem :: jsval
  image_data :: jsval

record page =
  chatHistory :: "element list"
  toasts :: "jsstring list"
  messageInput :: jsstring
  selectedImage :: "image_file option"
  loadingShown :: bool
  loadingText :: jsstring
  submitDisabled :: bool
  requests :: "request list"

text \<open>
  The parsed JSON body of a response. A field is \<open>Undefined\<close> when the body does not
  have it. The interface declares every field a string.
\<close>

record data =
  solution :: jsval
  explanation :: jsval
  practice_questions :: jsval
  response :: jsval
  image_url :: jsval
  error :: jsval
  details :: jsval

text \<open>A value interpolated into a template literal or concatenated to a string.\<close>

fun to_string :: "jsval \<Rightarrow> jsstring" where
  "to_string (Str s) = s"
| "to_string Undefined = js ''undefined''"
| "to_string Null = js ''null''"

definition showError :: "jsstring \<Rightarrow> page \<Rightarrow> page" where
  "showError message p = p\<lparr>toasts := toasts p @ [message]\<rparr>"

definition validateInput :: "page \<Rightarrow> page" where
  "validateInput p =
     (if trim (messageInput p) \<noteq> [] \<or> selectedImage p \<noteq> None
      then p\<lparr>submitDisabled := False\<rparr>
      else p\<lparr>submitDisabled := True\<rparr>)"

definition showLoading :: "jsstring \<Rightarrow> page \<Rightarrow> page" where
  "showLoading message p =
     p\<lparr>loadingText := message, loadingShown := True, submitDisabled := True\<rparr>"

definition hideLoading :: "page \<Rightarrow> page" where
  "hideLoading p = validateInput (p\<lparr>loadingShown := False\<rparr>)"

definition removeImage :: "page \<Rightarrow> page" where
  "removeImage p = validateInput (p\<lparr>selectedImage := None\<rparr>)"

definition addUserMessage :: "jsstring \<Rightarrow> page \<Rightarrow> page" where
  \<open>addUserMessage message p =
     (if trim message = [] then p
      else p\<lparr>chatHistory := chatHistory p @
             [\<lparr>className = js ''message user-message'',
               innerHTML = js ''<div class="message-content">'' @ escapeHtml message @ js ''</div>''\<rparr>]\<rparr>)\<close>

text \<open>The \<^verbatim>\<open>innerHTML\<close> that \<^verbatim>\<open>addBotMessage\<close> builds.\<close>

definition bot_innerHTML :: "data \<Rightarrow> jsstring" where
  \<open>bot_innerHTML d =
     (let h0 = [];
          h1 = (if truthy (solution d)
                then h0 @ js ''\<newline>            <div class="solution">\<newline>                <h3>Solution</h3>\<newline>                <div class="message-content">''
                        @ advancedMarkdownToHtml (solution d)
                        @ js ''</div>\<newline>            </div>\<newline>        ''
                else h0);
          h2 = (if truthy (explanation d)
                then h1 @ js ''\<newline>            <div class="explanation">\<newline>                <h3>Explanation</h3>\<newline>                <div class="message-content">''
                        @ advancedMarkdownToHtml (explanation d)
                        @ js ''</div>\<newline>            </div>\<newline>        ''
                else h1);
          h3 = (if truthy (practice_questions d)
                then h2 @ js ''\<newline>            <div class="practice-questions">\<newline>                <h3>Practice Questions</h3>\<newline>                <div class="message-content">''
                        @ advancedMarkdownToHtml (practice_questions d)
                        @ js ''</div>\<newline>            </div>\<newline>        ''
                else h2);
          h4 = (if \<not> truthy (solution d) \<and> \<not> truthy (explanation d)
                   \<and> \<not> truthy (practice_questions d) \<and> truthy (response d)
                then js ''<div class="message-content">'' @ advancedMarkdownToHtml (response d)
                     @ js ''</div>''
                else h3);
          h5 = (if truthy (image_url d)
                then h4 @ js ''<img src="'' @ to_string (image_url d)
                        @ js ''" alt="Response Image" class="message-image">''
                else h4)
      in h5)\<close>

definition addBotMessage :: "data \<Rightarrow> page \<Rightarrow> page" where
  "addBotMessage d p =
     p\<lparr>chatHistory := chatHistory p @
        [\<lparr>className = js ''message bot-message'', innerHTML = bot_innerHTML d\<rparr>]\<rparr>"

text \<open>
  How the \<^verbatim>\<open>fetch\<close> of \<^verbatim>\<open>makeApiCall\<close> settles: the promise rejects (with an error
  message), or a response arrives whose body \<^verbatim>\<open>response.json()\<close> either fails to parse
  (with an error message) or parses. \<open>status\<close> is the status code as the template
  literal of the source prints it, in decimal.
\<close>

datatype fetch_result =
    NetworkError jsstring
  | HttpResponse (ok: bool) (status: jsstring) (statusText: jsstring) (body: "jsstring + data")

text \<open>\<^verbatim>\<open>message || fallback\<close> of the two \<^verbatim>\<open>catch\<close> blocks.\<close>

definition or_else :: "jsstring \<Rightarrow> jsstring \<Rightarrow> jsstring" where
  "or_else message fallback = (if message \<noteq> [] then message else fallback)"

text \<open>The \<^verbatim>\<open>catch\<close> block of \<^verbatim>\<open>makeApiCall\<close>.\<close>

definition makeApiCall_catch :: "jsstring \<Rightarrow> page \<Rightarrow> page" where
  "makeApiCall_catch message p =
     (let p1 = hideLoading p;
          p2 = showError (or_else message (js ''Failed to communicate with the server.'')) p1;
          p3 = p2\<lparr>messageInput := []\<rparr>;
          p4 = (if selectedImage p3 \<noteq> None then removeImage p3 else p3)
      in validateInput p4)"

text \<open>\<^verbatim>\<open>makeApiCall\<close> up to its first \<^verbatim>\<open>await\<close>: the request is sent.\<close>

definition makeApiCall_send :: "request \<Rightarrow> page \<Rightarrow> page" where
  "makeApiCall_send requestData p = p\<lparr>requests := requests p @ [requestData]\<rparr>"

text \<open>\<^verbatim>\<open>makeApiCall\<close> from the moment the \<^verbatim>\<open>fetch\<close> settles.\<close>

definition makeApiCall_settle :: "fetch_result \<Rightarrow> page \<Rightarrow> page" where
  "makeApiCall_settle res p =
     (case res of
        NetworkError message \<Rightarrow> makeApiCall_catch message p
      | HttpResponse is_ok st st_text b \<Rightarrow>
          (case b of
             Inl message \<Rightarrow> makeApiCall_catch message p
           | Inr d \<Rightarrow>
               if \<not> is_ok then
                 (let errorMessage =
                        (if truthy (details d) then to_string (details d)
                         else if truthy (error d) then to_string (error d)
                         else js ''Server error: '' @ st @ js '' '' @ st_text)
                  in makeApiCall_catch errorMessage p)
               else
                 (let p1 = hideLoading p
                  in if truthy (error d)
                     then showError (to_string (error d) @
                            (if truthy (details d) then js '': '' @ to_string (details d) else [])) p1
                     else addBotMessage d p1)))"

text \<open>
  What is pending when \<^verbatim>\<open>handleSubmit\<close> gives control back for the first time: nothing
  (the submission was rejected), the \<^verbatim>\<open>fetch\<close> of \<^verbatim>\<open>makeApiCall\<close>, or the
  \<^verbatim>\<open>FileReader\<close> reading the selected image.
\<close>

datatype pending = Nothing | Fetching request | Reading image_file request

text \<open>The lines of \<^verbatim>\<open>handleSubmit\<close> after the \<^verbatim>\<open>try\<close> statement.\<close>

definition handleSubmit_clear :: "page \<Rightarrow> page" where
  "handleSubmit_clear p =
     (let p1 = p\<lparr>messageInput := []\<rparr>;
          p2 = (if selectedImage p1 \<noteq> None then removeImage p1 else p1)
      in validateInput p2)"

text \<open>
  \<^verbatim>\<open>handleSubmit\<close> until it gives control back for the first time. Without an image it
  stops at the \<^verbatim>\<open>await\<close> of the \<^verbatim>\<open>fetch\<close> inside \<^verbatim>\<open>makeApiCall\<close>; with an image it
  starts the reader and runs to its end.
\<close>

definition handleSubmit_sync :: "page \<Rightarrow> page \<times> pending" where
  "handleSubmit_sync p =
     (let userMessage = trim (messageInput p)
      in if userMessage = [] \<and> selectedImage p = None
         then (showError (js ''Please enter a message or upload an image.'') p, Nothing)
         else
           (let p1 = addUserMessage userMessage p;
                p2 = showLoading (js ''Thinking...'') p1;
                requestData = \<lparr>text_problem = (if userMessage \<noteq> [] then Str userMessage else Null),
                               image_data = Null\<rparr>
            in case selectedImage p2 of
                 Some f \<Rightarrow> (handleSubmit_clear p2, Reading f requestData)
               | None \<Rightarrow> (makeApiCall_send requestData p2, Fetching requestData)))"

text \<open>
  A submission of text alone from start to end: the synchronous part, the settling of the
  \<^verbatim>\<open>fetch\<close>, and the rest of \<^verbatim>\<open>handleSubmit\<close> after \<^verbatim>\<open>await makeApiCall\<close>.
\<close>

definition handleSubmit_text :: "fetch_result \<Rightarrow> page \<Rightarrow> page" where
  "handleSubmit_text res p =
     (case handleSubmit_sync p of
        (p1, Fetching requestData) \<Rightarrow> handleSubmit_clear (makeApiCall_settle res p1)
      | (p1, _) \<Rightarrow> p1)"

text \<open>
  \<^verbatim>\<open>reader.onloadend\<close> after a successful read: the part of the data URL after the
  first comma becomes \<^verbatim>\<open>image_data\<close> and the request is sent.
\<close>

definition after_comma :: "jsstring \<Rightarrow> jsval" where
  "after_comma u =
     (case dropWhile (\<lambda>c. c \<noteq> 44) u of
        [] \<Rightarrow> Undefined
      | _ # r \<Rightarrow> Str (takeWhile (\<lambda>c. c \<noteq> 44) r))"

definition reader_onloadend :: "jsstring \<Rightarrow> request \<Rightarrow> page \<Rightarrow> page" where
  "reader_onloadend result requestData p =
     makeApiCall_send (requestData\<lparr>image_data := after_comma result\<rparr>) p"

text \<open>\<^verbatim>\<open>reader.onerror\<close>.\<close>

definition reader_onerror :: "page \<Rightarrow> page" where
  "reader_onerror p = hideLoading (showError (js ''Failed to read the selected image file.'') p)"

section \<open>Definitions used in the statements\<close>

text \<open>
  The data of a confirmed success: the response has a 2xx status, its body parses and has
  no (truthy) \<^verbatim>\<open>error\<close> field.
\<close>

definition succeeded :: "fetch_result \<Rightarrow> data option" where
  "succeeded res =
     (case res of
        NetworkError _ \<Rightarrow> None
      | HttpResponse is_ok _ _ b \<Rightarrow>
          (case b of
             Inl _ \<Rightarrow> None
           | Inr d \<Rightarrow> if is_ok \<and> \<not> truthy (error d) then Some d else None))"

text \<open>A page with blanks in the message input and no image selected.\<close>

definition page_blank :: page where
  "page_blank =
     \<lparr>chatHistory = [], toasts = [], messageInput = js ''  '', selectedImage = None,
      loadingShown = False, loadingText = [], submitDisabled = True, requests = []\<rparr>"

text \<open>A response body without any field, and a page with an empty transcript.\<close>

definition data_none :: data where
  "data_none =
     \<lparr>solution = Undefined, explanation = Undefined, practice_questions = Undefined,
      response = Undefined, image_url = Undefined, error = Undefined, details = Undefined\<rparr>"

definition page_idle :: page where
  "page_idle =
     \<lparr>chatHistory = [], toasts = [], messageInput = [], selectedImage = None,
      loadingShown = False, loadingText = [], submitDisabled = True, requests = []\<rparr>"

text \<open>
  The error body \<^verbatim>\<open>{ "error": "Bad input", "details": "missing field" }\<close> and a response
  with status 400 that carries it.
\<close>

definition data_bad_input :: data where
  "data_bad_input =
     data_none\<lparr>error := Str (js ''Bad input''), details := Str (js ''missing field'')\<rparr>"

definition bad_input :: fetch_result where
  "bad_input = HttpResponse False (js ''400'') (js ''Bad Request'') (Inr data_bad_input)"

text \<open>A page with an image selected and no text, and one with text and no image.\<close>

definition page_image_only :: page where
  "page_image_only = page_idle\<lparr>selectedImage := Some (File (js ''image/png''))\<rparr>"

definition page_text :: page where
  "page_text = page_idle\<lparr>messageInput := js '' 2+2? ''\<rparr>"

text \<open>The elements that \<^verbatim>\<open>addUserMessage\<close> and \<^verbatim>\<open>addBotMessage\<close> append.\<close>

definition user_element :: "jsstring \<Rightarrow> element" where
  \<open>user_element message =
     \<lparr>className = js ''message user-message'',
      innerHTML = js ''<div class="message-content">'' @ escapeHtml message @ js ''</div>''\<rparr>\<close>

definition bot_element :: "data \<Rightarrow> element" where
  "bot_element d = \<lparr>className = js ''message bot-message'', innerHTML = bot_innerHTML d\<rparr>"

subsection \<open>Plain text\<close>

text \<open>
  The text that the specification calls free of markdown tokens: no backtick, no
  asterisk, and no line that begins with \<^verbatim>\<open>#\<close>, with an unordered-list marker (one of
  \<^verbatim>\<open>-\<close>, \<^verbatim>\<open>*\<close>, \<^verbatim>\<open>+\<close> followed by white space) or with an ordered-list number (digits,
  a dot and white space). Lines are separated by the line terminators of ECMAScript, and
  a list marker may be indented by white space. \<open>no_line_begins skip bad lead t\<close> scans
  \<open>t\<close>: \<open>lead\<close> says that the current position is at the beginning of a line, up to
  characters that satisfy \<open>skip\<close>, and \<open>bad\<close> recognises what must not begin there.
\<close>

fun no_line_begins :: "(nat \<Rightarrow> bool) \<Rightarrow> (jsstring \<Rightarrow> bool) \<Rightarrow> bool \<Rightarrow> jsstring \<Rightarrow> bool" where
  "no_line_begins skip bad lead [] = True"
| "no_line_begins skip bad lead (c # cs) =
     ((lead \<longrightarrow> \<not> bad (c # cs))
      \<and> no_line_begins skip bad (is_line_terminator c \<or> (lead \<and> skip c)) cs)"

definition heading_start :: "jsstring \<Rightarrow> bool" where
  "heading_start l = (case l of [] \<Rightarrow> False | c # _ \<Rightarrow> c = HASH)"

definition ul_start :: "jsstring \<Rightarrow> bool" where
  "ul_start l = (case l of c # d # _ \<Rightarrow> c \<in> set (js ''-*+'') \<and> is_space d | _ \<Rightarrow> False)"

definition ol_start :: "jsstring \<Rightarrow> bool" where
  "ol_start l =
     ((case l of [] \<Rightarrow> False | c # _ \<Rightarrow> is_digit c)
      \<and> (case dropWhile is_digit l of c # d # _ \<Rightarrow> c = 46 \<and> is_space d | _ \<Rightarrow> False))"

text \<open>No two consecutive newlines are followed by a further character.\<close>

fun no_paragraph_break :: "jsstring \<Rightarrow> bool" where
  "no_paragraph_break (a # b # c # r) = (\<not> (a = NL \<and> b = NL) \<and> no_paragraph_break (b # c # r))"
| "no_paragraph_break r = True"

definition plain_lines :: "jsstring \<Rightarrow> bool" where
  "plain_lines t =
     (ASTERISK \<notin> set t
      \<and> no_line_begins (\<lambda>c. False) heading_start True t
      \<and> no_line_begins is_space ul_start True t
      \<and> no_line_begins is_space ol_start True t)"

definition markdown_free :: "jsstring \<Rightarrow> bool" where
  "markdown_free t = (BACKTICK \<notin> set t \<and> plain_lines t)"

text \<open>
  All backticks of the text are adjacent to each other, as in a text whose only
  backticks are those of an opening fence that is never closed.
\<close>

definition backticks_in_one_run :: "jsstring \<Rightarrow> bool" where
  "backticks_in_one_run t =
     (BACKTICK \<notin> set (dropWhile (\<lambda>c. c = BACKTICK) (dropWhile (\<lambda>c. c \<noteq> BACKTICK) t)))"

text \<open>
  The HTML-escaped form of a text with every newline replaced by \<^verbatim>\<open><br>\<close>, trimmed: what
  the specification says the renderer returns for text without markdown tokens.
\<close>

definition newlines_to_br :: "jsstring \<Rightarrow> jsstring" where
  "newlines_to_br s = concat (map (\<lambda>c. if c = NL then js ''<br>'' else [c]) s)"

definition escaped_text :: "jsstring \<Rightarrow> jsstring" where
  "escaped_text t = trim (newlines_to_br (escapeHtml t))"

text \<open>A text in which HTML escaping changes nothing.\<close>

definition needs_no_escape :: "jsstring \<Rightarrow> bool" where
  "needs_no_escape t = (AMP \<notin> set t \<and> NBSP \<notin> set t \<and> LT \<notin> set t \<and> GT \<notin> set t)"

subsection \<open>Auxiliary notions of the proofs\<close>

text \<open>
  \<open>advanced st st'\<close>: the matcher state \<open>st'\<close> is \<open>st\<close> moved forward over some
  characters. \<open>breaks_after n s\<close>: no character of \<open>s\<close> comes after two or more newlines,
  where \<open>n\<close> newlines precede \<open>s\<close>. \<open>one_run ph s\<close>: the backticks of \<open>s\<close> lie in one run,
  where \<open>ph\<close> is 0 before the run, 1 inside it and 2 after it.
\<close>

definition advanced :: "mstate \<Rightarrow> mstate \<Rightarrow> bool" where
  "advanced st st' = (\<exists>w. rest st = w @ rest st' \<and> before st' = rev w @ before st)"

fun breaks_after :: "nat \<Rightarrow> jsstring \<Rightarrow> bool" where
  "breaks_after n [] = True"
| "breaks_after n (c # cs) = (n < 2 \<and> breaks_after (if c = NL then Suc n else 0) cs)"

fun one_run :: "nat \<Rightarrow> jsstring \<Rightarrow> bool" where
  "one_run ph [] = True"
| "one_run ph (c # cs) =
     (if c = BACKTICK then ph < 2 \<and> one_run 1 cs else one_run (if ph = 0 then 0 else 2) cs)"

text \<open>
  \<open>caps_ok st\<close>: every capture of the matcher state \<open>st\<close> is a span of the input.
\<close>

definition caps_ok :: "mstate \<Rightarrow> bool" where
  "caps_ok st = (\<forall>(n, a, b)\<in>set (caps st). a \<le> b \<and> b \<le> pos st + length (rest st))"

subsection \<open>The renderer with the origin of every character\<close>

text \<open>
  To state where the characters of the output come from, the renderer is run a second
  time on characters that carry their origin: the characters of the escaped input are
  marked \<open>FromInput\<close>, the characters that a replacement supplies itself (the text of
  its tags) are marked \<open>FromRenderer\<close>, and a span copied by a replacement keeps the
  marks it has. Matching looks at the characters alone, so the traced renderer makes
  the same replacements as \<^verbatim>\<open>advancedMarkdownToHtml\<close>.
\<close>

datatype origin = FromInput | FromRenderer

type_synonym tstring = "(nat \<times> origin) list"

fun piece_text_traced :: "tstring \<Rightarrow> piece \<Rightarrow> tstring" where
  "piece_text_traced ls (Emit l) = map (\<lambda>c. (c, FromRenderer)) l"
| "piece_text_traced ls (Copy sp) = substring ls sp"

definition pieces_text_traced :: "tstring \<Rightarrow> piece list \<Rightarrow> tstring" where
  "pieces_text_traced ls ps = concat (map (piece_text_traced ls) ps)"

fun replace_scan_traced ::
  "bool \<Rightarrow> regex \<Rightarrow> replacer \<Rightarrow> tstring \<Rightarrow> jsstring \<Rightarrow> tstring \<Rightarrow> nat \<Rightarrow> tstring" where
  "replace_scan_traced ml re rep ls b [] skip =
     (if skip = 0 then
        (case match_here ml re b [] of
           None \<Rightarrow> []
         | Some m \<Rightarrow> pieces_text_traced ls (rep (map fst ls) m))
      else [])"
| "replace_scan_traced ml re rep ls b (x # r) skip =
     (if skip = 0 then
        (case match_here ml re b (map fst (x # r)) of
           None \<Rightarrow> x # replace_scan_traced ml re rep ls (fst x # b) r 0
         | Some m \<Rightarrow>
             pieces_text_traced ls (rep (map fst ls) m) @
             (if m_end m = m_start m then x # replace_scan_traced ml re rep ls (fst x # b) r 0
              else replace_scan_traced ml re rep ls (fst x # b) r (m_end m - m_start m - 1)))
      else replace_scan_traced ml re rep ls (fst x # b) r (skip - 1))"

definition replace_traced :: "bool \<Rightarrow> regex \<Rightarrow> replacer \<Rightarrow> tstring \<Rightarrow> tstring" where
  "replace_traced ml re rep ls = replace_scan_traced ml re rep ls [] ls 0"

fun run_step_traced :: "tstring \<Rightarrow> step \<Rightarrow> tstring" where
  "run_step_traced html (ml, re, rep) = replace_traced ml re rep html"

definition trim_traced :: "tstring \<Rightarrow> tstring" where
  "trim_traced ls =
     rev (dropWhile (\<lambda>x. is_space (fst x)) (rev (dropWhile (\<lambda>x. is_space (fst x)) ls)))"

definition escapeHtml_traced :: "jsstring \<Rightarrow> tstring" where
  "escapeHtml_traced text = map (\<lambda>c. (c, FromInput)) (escapeHtml text)"

fun advancedMarkdownToHtml_traced :: "jsval \<Rightarrow> tstring" where
  "advancedMarkdownToHtml_traced (Str text) =
     (if text = [] then []
      else trim_traced (foldl run_step_traced (escapeHtml_traced text) markdown_steps))"
| "advancedMarkdownToHtml_traced Undefined = []"
| "advancedMarkdownToHtml_traced Null = []"

text \<open>Every \<^verbatim>\<open><\<close> and \<^verbatim>\<open>>\<close> of a traced string was supplied by a replacement.\<close>

definition renderer_markup :: "tstring \<Rightarrow> bool" where
  "renderer_markup ls = (\<forall>x\<in>set ls. fst x = LT \<or> fst x = GT \<longrightarrow> snd x = FromRenderer)"


section \<open>Properties\<close>

subsection \<open>\<^verbatim>\<open>trim\<close>\<close>

lemma dropWhile_strip_end:
  assumes "u = [] \<or> \<not> P (hd u)"
  shows "dropWhile P (rev (dropWhile P (rev u))) = rev (dropWhile P (rev u))"
  by (metis assms dropWhile_eq_self_iff dropWhile_last hd_rev last_in_set
    last_rev rev_is_Nil_conv)

lemma trim_trim: "trim (trim s) = trim s"
proof -
  define u where "u = dropWhile is_space s"
  have u: "u = [] \<or> \<not> is_space (hd u)"
    unfolding u_def by (metis hd_dropWhile)
  have "dropWhile is_space (trim s) = trim s"
    unfolding trim_def u_def [symmetric] using u by (rule dropWhile_strip_end [of u is_space])
  then show ?thesis
    by (simp add: trim_def)
qed

subsection \<open>What the helpers leave unchanged\<close>

lemma chat_validateInput: "chatHistory (validateInput p) = chatHistory p"
  by (simp add: validateInput_def)

lemma chat_hideLoading: "chatHistory (hideLoading p) = chatHistory p"
  by (simp add: hideLoading_def chat_validateInput)

lemma chat_removeImage: "chatHistory (removeImage p) = chatHistory p"
  by (simp add: removeImage_def chat_validateInput)

lemma chat_showError: "chatHistory (showError m p) = chatHistory p"
  by (simp add: showError_def)

lemma chat_makeApiCall_catch: "chatHistory (makeApiCall_catch m p) = chatHistory p"
  by (simp add: makeApiCall_catch_def Let_def chat_validateInput chat_hideLoading
      chat_removeImage chat_showError)

lemma toasts_validateInput: "toasts (validateInput p) = toasts p"
  by (simp add: validateInput_def)

lemma toasts_hideLoading: "toasts (hideLoading p) = toasts p"
  by (simp add: hideLoading_def toasts_validateInput)

lemma toasts_removeImage: "toasts (removeImage p) = toasts p"
  by (simp add: removeImage_def toasts_validateInput)

lemma toasts_makeApiCall_catch:
  "toasts (makeApiCall_catch m p) =
     toasts p @ [or_else m (js ''Failed to communicate with the server.'')]"
  by (simp add: makeApiCall_catch_def Let_def toasts_validateInput toasts_hideLoading
      toasts_removeImage showError_def)

lemma chat_makeApiCall_settle:
  "chatHistory (makeApiCall_settle res p) =
     (case succeeded res of
        None \<Rightarrow> chatHistory p
      | Some d \<Rightarrow> chatHistory p @
          [\<lparr>className = js ''message bot-message'', innerHTML = bot_innerHTML d\<rparr>])"
  by (simp add: makeApiCall_settle_def succeeded_def addBotMessage_def Let_def
      chat_makeApiCall_catch chat_hideLoading chat_showError
      split: fetch_result.splits sum.splits)

subsection \<open>Rejected submissions\<close>

text \<open>
  Claim C6. If at submit time the trimmed message text is empty and no image is selected,
  \<^verbatim>\<open>handleSubmit\<close> shows the validation message and does nothing else: nothing is
  pending afterwards (no request is sent to \<^verbatim>\<open>/api/solve\<close>), and the page differs from
  the page before only by the new toast, so the transcript, the message input and the
  selected image are unchanged.
\<close>

theorem handleSubmit_rejects_empty:
  assumes "trim (messageInput p) = []" and "selectedImage p = None"
  shows "handleSubmit_sync p =
           (p\<lparr>toasts := toasts p @ [js ''Please enter a message or upload an image.'']\<rparr>,
            Nothing)
         \<and> handleSubmit_text res p =
           p\<lparr>toasts := toasts p @ [js ''Please enter a message or upload an image.'']\<rparr>"
  using assms by (simp add: handleSubmit_sync_def handleSubmit_text_def showError_def)

theorem handleSubmit_rejects_empty_witness:
  "trim (messageInput page_blank) = [] \<and> selectedImage page_blank = None
   \<and> fst (handleSubmit_sync page_blank) =
      page_blank\<lparr>toasts := [js ''Please enter a message or upload an image.'']\<rparr>
   \<and> snd (handleSubmit_sync page_blank) = Nothing
   \<and> requests (fst (handleSubmit_sync page_blank)) = []
   \<and> chatHistory (fst (handleSubmit_sync page_blank)) = []
   \<and> messageInput (fst (handleSubmit_sync page_blank)) = js ''  ''"
proof -
  have a: "trim (messageInput page_blank) = []"
    by (simp add: page_blank_def trim_def js_def is_space_def)
  have b: "selectedImage page_blank = None"
    by (simp add: page_blank_def)
  show ?thesis
    using handleSubmit_rejects_empty [OF a b] a b by (simp add: page_blank_def)
qed

lemma trim_Nil: "trim [] = []"
  by (simp add: trim_def)

subsection \<open>Evaluation of the renderer on a given text\<close>

lemmas eval_chars = js_def is_space_def is_digit_def is_line_terminator_def
  AMP_def LT_def GT_def NBSP_def

lemmas eval_replace = template_def replace_def match_here_def pos_def
  pieces_text_def group_def set_cap_def at_bol_def at_eol_def Let_def

lemmas eval_regex = re_code_block_def re_inline_code_def re_bold_def re_italic_def
  re_ul_item_def re_li_join_def re_li_open_def re_li_close_def re_ol_item_def re_ol_join_def
  re_heading_def re_paragraph_def block_names_def re_p_unwrap_def re_newline_def

lemmas eval_markdown = eval_chars eval_replace eval_regex markdown_steps_def escapeHtml_def
  escape_char_def code_block_replacer_def paragraph_replacer_def trim_def

lemma render_hi: "advancedMarkdownToHtml (Str (js ''hi'')) = js ''hi''"
  by (simp add: eval_markdown)

subsection \<open>Error responses\<close>

text \<open>
  Claim C2, as stated, fails: for the response with status 400 and the body
  \<^verbatim>\<open>{ "error": "Bad input", "details": "missing field" }\<close> the only toast is
  \<^verbatim>\<open>missing field\<close>, not \<^verbatim>\<open>Bad input: missing field\<close>.
\<close>

theorem error_details_counterexample:
  "toasts (makeApiCall_settle bad_input page_idle) = [js ''missing field'']
   \<and> js ''missing field'' \<noteq> js ''Bad input: missing field''"
  by (simp add: bad_input_def data_bad_input_def data_none_def makeApiCall_settle_def
      toasts_makeApiCall_catch or_else_def page_idle_def js_def)

text \<open>
  Claim C2, amended. When \<^verbatim>\<open>POST /api/solve\<close> returns a non-2xx status whose JSON body
  has an \<^verbatim>\<open>error\<close> field and a non-empty \<^verbatim>\<open>details\<close> field, the client shows one
  notification whose text is \<^verbatim>\<open>details\<close> alone, and appends no assistant message. The
  text \<^verbatim>\<open>error: details\<close> is what the client shows (again without an assistant message)
  when a 2xx response carries a non-empty \<^verbatim>\<open>error\<close> field.
\<close>

theorem non_2xx_shows_details:
  assumes "error d = Str e" and "details d = Str dt" and "dt \<noteq> []"
  shows "toasts (makeApiCall_settle (HttpResponse False st st_text (Inr d)) p) = toasts p @ [dt]
       \<and> chatHistory (makeApiCall_settle (HttpResponse False st st_text (Inr d)) p) = chatHistory p
       \<and> (e \<noteq> [] \<longrightarrow>
            toasts (makeApiCall_settle (HttpResponse True st st_text (Inr d)) p)
              = toasts p @ [e @ js '': '' @ dt]
          \<and> chatHistory (makeApiCall_settle (HttpResponse True st st_text (Inr d)) p)
              = chatHistory p)"
  using assms
  by (simp add: makeApiCall_settle_def toasts_makeApiCall_catch chat_makeApiCall_catch
      or_else_def Let_def showError_def toasts_hideLoading chat_hideLoading)

theorem non_2xx_shows_details_witness:
  "toasts (makeApiCall_settle bad_input page_idle) = [js ''missing field'']
   \<and> chatHistory (makeApiCall_settle bad_input page_idle) = []
   \<and> toasts (makeApiCall_settle
        (HttpResponse True (js ''200'') (js ''OK'') (Inr data_bad_input)) page_idle)
      = [js ''Bad input: missing field'']"
proof -
  have a: "error data_bad_input = Str (js ''Bad input'')"
    by (simp add: data_bad_input_def data_none_def)
  have b: "details data_bad_input = Str (js ''missing field'')"
    by (simp add: data_bad_input_def data_none_def)
  have c: "js ''missing field'' \<noteq> []" and d: "js ''Bad input'' \<noteq> []"
    by (simp_all add: js_def)
  have e: "toasts page_idle = []" "chatHistory page_idle = []"
    by (simp_all add: page_idle_def)
  show ?thesis
    using non_2xx_shows_details [OF a b c, of "js ''400''" "js ''Bad Request''" page_idle]
      non_2xx_shows_details [OF a b c, of "js ''200''" "js ''OK''" page_idle] d e
    by (simp add: bad_input_def js_def)
qed

subsection \<open>The user's message and the assistant's message\<close>

text \<open>
  Claim C4, as stated, fails for a submission of an image alone: the submission is
  accepted (the reader is started), and the transcript stays as it was, because
  \<^verbatim>\<open>addUserMessage\<close> returns at once for a blank message.
\<close>

theorem image_only_counterexample:
  "trim (messageInput page_image_only) = []
   \<and> selectedImage page_image_only \<noteq> None
   \<and> snd (handleSubmit_sync page_image_only)
      = Reading (File (js ''image/png'')) \<lparr>text_problem = Null, image_data = Null\<rparr>
   \<and> chatHistory (fst (handleSubmit_sync page_image_only)) = chatHistory page_image_only"
  by (simp add: page_image_only_def page_idle_def handleSubmit_sync_def addUserMessage_def
      trim_def showLoading_def handleSubmit_clear_def removeImage_def validateInput_def Let_def)

text \<open>
  Claim C4, amended. For every submission whose trimmed text is not empty (with or
  without an image), \<^verbatim>\<open>handleSubmit\<close> appends the user's message to the transcript in its
  synchronous part, before the request settles, and something is pending afterwards. For
  a submission with empty trimmed text (an image alone) no user message is appended. The
  assistant message is appended exactly when the request settles with a confirmed success.
\<close>

theorem user_message_on_submit:
  "(trim (messageInput p) \<noteq> [] \<longrightarrow>
      chatHistory (fst (handleSubmit_sync p))
        = chatHistory p @ [user_element (trim (messageInput p))]
    \<and> snd (handleSubmit_sync p) \<noteq> Nothing)
   \<and> (trim (messageInput p) = [] \<longrightarrow>
      chatHistory (fst (handleSubmit_sync p)) = chatHistory p)
   \<and> chatHistory (makeApiCall_settle res q)
        = (case succeeded res of
             None \<Rightarrow> chatHistory q
           | Some d \<Rightarrow> chatHistory q @ [bot_element d])"
  by (simp add: handleSubmit_sync_def addUserMessage_def trim_trim trim_Nil user_element_def
      Let_def showLoading_def chat_makeApiCall_settle bot_element_def showError_def
      handleSubmit_clear_def chat_validateInput chat_removeImage makeApiCall_send_def
      split: option.splits)

theorem user_message_on_submit_witness:
  "trim (messageInput page_text) = js ''2+2?''
   \<and> chatHistory (fst (handleSubmit_sync page_text)) = [user_element (js ''2+2?'')]
   \<and> snd (handleSubmit_sync page_text) \<noteq> Nothing
   \<and> chatHistory (fst (handleSubmit_sync page_image_only)) = []
   \<and> chatHistory (makeApiCall_settle bad_input (fst (handleSubmit_sync page_text)))
        = [user_element (js ''2+2?'')]
   \<and> chatHistory (makeApiCall_settle
          (HttpResponse True (js ''200'') (js ''OK'') (Inr (data_none\<lparr>solution := Str (js ''4'')\<rparr>)))
          (fst (handleSubmit_sync page_text)))
        = [user_element (js ''2+2?''), bot_element (data_none\<lparr>solution := Str (js ''4'')\<rparr>)]"
proof -
  have a: "trim (messageInput page_text) = js ''2+2?''"
    by (simp add: page_text_def page_idle_def trim_def eval_chars)
  have b: "trim (messageInput page_image_only) = []"
    by (simp add: page_image_only_def page_idle_def trim_def)
  have c: "js ''2+2?'' \<noteq> []"
    by (simp add: js_def)
  have d: "chatHistory page_text = []" "chatHistory page_image_only = []"
    by (simp_all add: page_text_def page_image_only_def page_idle_def)
  have e: "succeeded bad_input = None"
    by (simp add: succeeded_def bad_input_def)
  have f: "succeeded (HttpResponse True (js ''200'') (js ''OK'')
             (Inr (data_none\<lparr>solution := Str (js ''4'')\<rparr>)))
           = Some (data_none\<lparr>solution := Str (js ''4'')\<rparr>)"
    by (simp add: succeeded_def data_none_def)
  show ?thesis
    using user_message_on_submit [of page_text bad_input "fst (handleSubmit_sync page_text)"]
      user_message_on_submit [of page_image_only]
      user_message_on_submit [of page_text "HttpResponse True (js ''200'') (js ''OK'')
             (Inr (data_none\<lparr>solution := Str (js ''4'')\<rparr>))" "fst (handleSubmit_sync page_text)"]
      a b c d e f
    by simp
qed

subsection \<open>The assistant's message\<close>

text \<open>
  Claim C9, as stated, fails when a structured field is present and empty: for the body
  \<^verbatim>\<open>{ "solution": "", "response": "hi" }\<close> the message is the rendered \<^verbatim>\<open>response\<close>.
\<close>

theorem response_with_empty_solution_counterexample:
  \<open>bot_innerHTML (data_none\<lparr>solution := Str [], response := Str (js ''hi'')\<rparr>)
     = js ''<div class="message-content">hi</div>''\<close>
  using render_hi by (simp add: bot_innerHTML_def data_none_def js_def)

text \<open>
  Claim C9, amended. In \<^verbatim>\<open>addBotMessage\<close> the \<^verbatim>\<open>response\<close> field is rendered only when
  each of \<^verbatim>\<open>solution\<close>, \<^verbatim>\<open>explanation\<close> and \<^verbatim>\<open>practice_questions\<close> is absent or empty:
  for every response in which at least one of the three is a non-empty string, the
  \<^verbatim>\<open>response\<close> field has no influence on the assistant message, whatever its value.
\<close>

theorem response_ignored:
  assumes "truthy (solution d) \<or> truthy (explanation d) \<or> truthy (practice_questions d)"
  shows "bot_innerHTML (d\<lparr>response := r\<rparr>) = bot_innerHTML d"
  using assms by (auto simp add: bot_innerHTML_def Let_def)

theorem response_ignored_witness:
  "truthy (solution (data_none\<lparr>solution := Str (js ''x=1'')\<rparr>))
   \<and> bot_innerHTML (data_none\<lparr>solution := Str (js ''x=1''), response := Str (js ''hi'')\<rparr>)
     = bot_innerHTML (data_none\<lparr>solution := Str (js ''x=1'')\<rparr>)"
proof -
  have a: "truthy (solution (data_none\<lparr>solution := Str (js ''x=1'')\<rparr>))
     \<or> truthy (explanation (data_none\<lparr>solution := Str (js ''x=1'')\<rparr>))
     \<or> truthy (practice_questions (data_none\<lparr>solution := Str (js ''x=1'')\<rparr>))"
    by (simp add: js_def)
  show ?thesis
    using response_ignored [OF a, of "Str (js ''hi'')"] by (simp add: js_def)
qed

text \<open>
  Claim C10, as stated, fails when the \<^verbatim>\<open>image_url\<close> field is present and empty: for
  the body \<^verbatim>\<open>{ "image_url": "" }\<close> no image tag is appended.
\<close>

theorem empty_image_url_counterexample:
  "bot_innerHTML (data_none\<lparr>image_url := Str []\<rparr>) = []"
  by (simp add: bot_innerHTML_def data_none_def)

text \<open>
  Claim C10, amended. For every successful response with a non-empty \<^verbatim>\<open>image_url\<close>
  field, \<^verbatim>\<open>addBotMessage\<close> puts the value of the field, unchanged (not escaped, validated
  or sanitised), into the \<^verbatim>\<open>src\<close> attribute of an \<^verbatim>\<open>img\<close> tag, and appends the tag to
  whatever the other fields of the response produce.
\<close>

theorem image_url_verbatim:
  assumes "image_url d = Str u" and "u \<noteq> []"
  shows \<open>bot_innerHTML d =
           bot_innerHTML (d\<lparr>image_url := Undefined\<rparr>)
           @ js ''<img src="'' @ u @ js ''" alt="Response Image" class="message-image">''\<close>
  using assms by (simp add: bot_innerHTML_def Let_def)

theorem image_url_verbatim_witness:
  \<open>bot_innerHTML (data_none\<lparr>image_url := Str (js ''"><script>x</script>'')\<rparr>)
     = js ''<img src=""><script>x</script>" alt="Response Image" class="message-image">''\<close>
proof -
  have a: \<open>image_url (data_none\<lparr>image_url := Str (js ''"><script>x</script>'')\<rparr>)
             = Str (js ''"><script>x</script>'')\<close>
    by simp
  have b: \<open>js ''"><script>x</script>'' \<noteq> []\<close>
    by (simp add: js_def)
  have c: "bot_innerHTML (data_none\<lparr>image_url := Undefined\<rparr>) = []"
    by (simp add: bot_innerHTML_def data_none_def)
  show ?thesis
    using image_url_verbatim [OF a b] c by (simp add: js_def)
qed

subsection \<open>A fenced code block\<close>

text \<open>
  Claim C8. The text of three backticks, \<^verbatim>\<open>python\<close>, a newline, \<^verbatim>\<open>print(1)\<close>, a newline
  and three backticks renders to exactly
  \<^verbatim>\<open><pre><code class="language-python">print(1)</code></pre>\<close>: no later step adds a tag.
\<close>

theorem fenced_python_block:
  \<open>advancedMarkdownToHtml (Str (js ''```python\<newline>print(1)\<newline>```''))
     = js ''<pre><code class="language-python">print(1)</code></pre>''\<close>
  by (simp add: eval_markdown)

subsection \<open>The matcher only moves forward\<close>

lemma advanced_refl: "advanced st st"
  by (simp add: advanced_def)

lemma advanced_trans: "advanced a b \<Longrightarrow> advanced b c \<Longrightarrow> advanced a c"
  by (auto simp add: advanced_def)

lemma advanced_caps: "advanced st (MState (before st') (rest st') cs) = advanced st st'"
  by (simp add: advanced_def)

lemma advanced_caps_left: "advanced (MState (before st) (rest st) cs) st' = advanced st st'"
  by (simp add: advanced_def)

lemma lit_step_advanced: "st' \<in> set (lit_step l st) \<Longrightarrow> advanced st st'"
  by (induction l st rule: lit_step.induct) (auto simp add: advanced_def split: if_splits)

lemma cls_step_advanced: "st' \<in> set (cls_step cl st) \<Longrightarrow> advanced st st'"
  by (induction cl st rule: cls_step.induct) (auto simp add: advanced_def split: if_splits)

lemma star_greedy_advanced: "st' \<in> set (star_greedy cl st) \<Longrightarrow> advanced st st'"
  by (induction cl st rule: star_greedy.induct) (auto simp add: advanced_def split: if_splits)

lemma star_lazy_advanced: "st' \<in> set (star_lazy cl st) \<Longrightarrow> advanced st st'"
  by (induction cl st rule: star_lazy.induct) (auto simp add: advanced_def split: if_splits)

lemma matches_advanced:
  "(\<forall>st'. st' \<in> set (matches ml r st) \<longrightarrow> advanced st st')"
  "(\<forall>st'. st' \<in> set (match_item ml i st) \<longrightarrow> advanced st st')"
  "(\<forall>st'. st' \<in> set (match_alts ml rs st) \<longrightarrow> advanced st st')"
proof (induction ml r st and ml i st and ml rs st rule: matches_match_item_match_alts.induct)
  case (1 ml st)
  then show ?case by (simp add: advanced_refl)
next
  case (2 ml i r st)
  then show ?case by (auto intro: advanced_trans)
next
  case (3 ml l st)
  then show ?case by (auto dest: lit_step_advanced)
next
  case (4 ml cl st)
  then show ?case by (auto dest: cls_step_advanced)
next
  case (5 ml cl st)
  then show ?case by (auto dest: star_greedy_advanced)
next
  case (6 ml cl st)
  then show ?case by (auto dest!: star_greedy_advanced cls_step_advanced intro: advanced_trans)
next
  case (7 ml cl st)
  then show ?case by (auto dest: star_lazy_advanced)
next
  case (8 ml cl st)
  then show ?case by (auto dest!: star_lazy_advanced cls_step_advanced intro: advanced_trans)
next
  case (9 ml n r st)
  then show ?case by (auto simp add: set_cap_def advanced_caps)
next
  case (10 ml rs st)
  then show ?case by simp
next
  case (11 ml st)
  then show ?case by (simp add: advanced_refl)
next
  case (12 ml st)
  then show ?case by (simp add: advanced_refl)
next
  case (13 ml r st)
  then show ?case by (auto simp add: advanced_def split: list.splits)
next
  case (14 ml r st)
  then show ?case by (auto simp add: advanced_refl split: list.splits)
next
  case (15 ml cl st)
  then show ?case by (auto simp add: advanced_refl split: list.splits if_splits)
next
  case (16 ml st)
  then show ?case by simp
next
  case (17 ml r rs st)
  then show ?case by auto
qed

lemma concat_map_concat:
  "concat (map f (concat xss)) = concat (map (\<lambda>xs. concat (map f xs)) xss)"
  by (induction xss) auto

lemma matches_append:
  "matches ml (r1 @ r2) st = concat (map (matches ml r2) (matches ml r1 st))"
proof (induction r1 arbitrary: st)
  case Nil
  then show ?case by simp
next
  case (Cons i r1)
  have "matches ml (r1 @ r2) = (\<lambda>st. concat (map (matches ml r2) (matches ml r1 st)))"
    using Cons.IH by (intro ext)
  then show ?case
    by (simp add: concat_map_concat o_def)
qed

lemma match_here_None: "match_here ml re b r = None \<longleftrightarrow> matches ml re (MState b r []) = []"
  by (simp add: match_here_def split: list.splits)

lemma replace_scan_no_match:
  assumes "\<And>pre suf. r = pre @ suf \<Longrightarrow> matches ml re (MState (rev pre @ b) suf []) = []"
  shows "replace_scan ml re rep s b r 0 = r"
  using assms
proof (induction r arbitrary: b)
  case Nil
  then show ?case by (simp add: match_here_def)
next
  case (Cons c r)
  have "matches ml re (MState b (c # r) []) = []"
    using Cons.prems [of "[]" "c # r"] by simp
  moreover have "replace_scan ml re rep s (c # b) r 0 = r"
  proof (rule Cons.IH)
    fix pre suf
    assume "r = pre @ suf"
    then show "matches ml re (MState (rev pre @ c # b) suf []) = []"
      using Cons.prems [of "c # pre" suf] by simp
  qed
  ultimately show ?case
    by (simp add: match_here_def)
qed

lemma replace_no_match:
  assumes "\<And>pre suf. s = pre @ suf \<Longrightarrow> matches ml re (MState (rev pre) suf []) = []"
  shows "replace ml re rep s = s"
  unfolding replace_def using assms by (intro replace_scan_no_match) simp

subsection \<open>Lines that do not begin with a markdown token\<close>

lemma at_bol_split:
  "at_bol True (MState (rev pre) suf cs) \<longleftrightarrow> pre = [] \<or> is_line_terminator (last pre)"
  by (cases pre rule: rev_cases) (simp_all add: at_bol_def)

lemma at_bol_False_split:
  "at_bol False (MState (rev pre) suf cs) \<longleftrightarrow> pre = []"
  by (cases pre rule: rev_cases) (simp_all add: at_bol_def)

lemma no_line_begins_mono:
  "no_line_begins skip bad True s \<Longrightarrow> no_line_begins skip bad lead s"
proof (induction s arbitrary: lead)
  case Nil
  then show ?case by simp
next
  case (Cons c s)
  then show ?case by (cases "is_line_terminator c \<or> skip c") auto
qed

lemma no_line_begins_suffix:
  "no_line_begins skip bad lead (pre @ suf) \<Longrightarrow> pre \<noteq> [] \<Longrightarrow> is_line_terminator (last pre)
   \<Longrightarrow> no_line_begins skip bad True suf"
proof (induction pre arbitrary: lead)
  case Nil
  then show ?case by simp
next
  case (Cons c pre)
  then show ?case by (cases "pre = []") auto
qed

lemma no_line_begins_at_bol:
  assumes "no_line_begins skip bad True (pre @ suf)"
    and "at_bol True (MState (rev pre) suf cs)"
  shows "no_line_begins skip bad True suf"
  using assms no_line_begins_suffix [of skip bad True pre suf]
  by (cases "pre = []") (auto simp add: at_bol_split)

lemma no_line_begins_head:
  "no_line_begins skip bad True s \<Longrightarrow> s \<noteq> [] \<Longrightarrow> \<not> bad s"
  by (cases s) auto

lemma star_greedy_Space_lead:
  "st' \<in> set (star_greedy Space st) \<Longrightarrow> no_line_begins is_space bad True (rest st)
   \<Longrightarrow> no_line_begins is_space bad True (rest st')"
  by (induction Space st rule: star_greedy.induct) (auto split: if_splits)

lemma concat_map_Nil: "(\<And>x. x \<in> set xs \<Longrightarrow> f x = []) \<Longrightarrow> concat (map f xs) = []"
  by (induction xs) auto

lemma heading_no_match:
  assumes "no_line_begins (\<lambda>c. False) heading_start True (pre @ suf)"
    and "of_char h = HASH"
  shows "matches True (re_heading (h # hs)) (MState (rev pre) suf []) = []"
proof (cases "at_bol True (MState (rev pre) suf [])")
  case False
  then show ?thesis by (simp add: re_heading_def)
next
  case True
  have "no_line_begins (\<lambda>c. False) heading_start True suf"
    using assms(1) True by (rule no_line_begins_at_bol)
  then have "lit_step (js (h # hs)) (MState (rev pre) suf []) = []"
    using assms(2) by (cases suf) (auto simp add: js_def heading_start_def)
  then show ?thesis
    by (simp add: re_heading_def)
qed

lemma ul_marker_no_match:
  assumes "rest st = [] \<or> \<not> ul_start (rest st)"
  shows "matches ml (Cls (OneOf ''-*+'') # Plus Space # r) st = []"
proof (cases st)
  case (MState b s cs)
  show ?thesis
  proof (cases s)
    case Nil
    then show ?thesis using MState by simp
  next
    case (Cons c s')
    show ?thesis
    proof (cases s')
      case Nil
      then show ?thesis using MState Cons by simp
    next
      case (Cons d s'')
      then show ?thesis
        using MState \<open>s = c # s'\<close> assms by (auto simp add: ul_start_def)
    qed
  qed
qed

lemma matches_Bol_Star:
  "matches ml (Bol # Star cl # r) st =
     (if at_bol ml st then concat (map (matches ml r) (star_greedy cl st)) else [])"
  by simp

lemma ul_item_no_match:
  assumes "no_line_begins is_space ul_start True (pre @ suf)"
  shows "matches True re_ul_item (MState (rev pre) suf []) = []"
proof (cases "at_bol True (MState (rev pre) suf [])")
  case False
  then show ?thesis by (simp add: re_ul_item_def)
next
  case True
  have lead: "no_line_begins is_space ul_start True (rest (MState (rev pre) suf []))"
    using no_line_begins_at_bol [OF assms True] by simp
  have "matches True (Cls (OneOf ''-*+'') # Plus Space # r) st' = []"
    if "st' \<in> set (star_greedy Space (MState (rev pre) suf []))" for st' r
  proof -
    have "no_line_begins is_space ul_start True (rest st')"
      using that lead by (rule star_greedy_Space_lead)
    then have "rest st' = [] \<or> \<not> ul_start (rest st')"
      using no_line_begins_head by blast
    then show ?thesis by (rule ul_marker_no_match)
  qed
  then show ?thesis
    unfolding re_ul_item_def matches_Bol_Star using True by (simp only: if_True concat_map_Nil)
qed

lemma star_greedy_class:
  "st' \<in> set (star_greedy cl st) \<Longrightarrow> \<exists>w. rest st = w @ rest st' \<and> (\<forall>c\<in>set w. cmatch cl c)"
proof (induction cl st rule: star_greedy.induct)
  case (1 cl b cs)
  then show ?case by simp
next
  case (2 cl b c r cs)
  show ?case
  proof (cases "st' = MState b (c # r) cs")
    case True
    then show ?thesis by simp
  next
    case False
    then have m: "cmatch cl c" and "st' \<in> set (star_greedy cl (MState (c # b) r cs))"
      using "2.prems" by (auto split: if_splits)
    then obtain w where "r = w @ rest st'" and "\<forall>c\<in>set w. cmatch cl c"
      using "2.IH" by auto
    then have "c # r = (c # w) @ rest st' \<and> (\<forall>x\<in>set (c # w). cmatch cl x)"
      using m by simp
    then show ?thesis
      by (metis mstate.sel(2))
  qed
qed

lemma plus_digits:
  assumes "st' \<in> set (matches ml [Plus Digit] st)"
  shows "\<exists>ds. ds \<noteq> [] \<and> (\<forall>c\<in>set ds. is_digit c) \<and> rest st = ds @ rest st'"
proof (cases st)
  case (MState b s cs)
  show ?thesis
  proof (cases s)
    case Nil
    then show ?thesis using assms MState by simp
  next
    case (Cons c s')
    then have d: "is_digit c" and "st' \<in> set (star_greedy Digit (MState (c # b) s' cs))"
      using assms MState by (auto split: if_splits)
    then obtain w where "s' = w @ rest st'" and "\<forall>c\<in>set w. cmatch Digit c"
      using star_greedy_class by fastforce
    then have "c # w \<noteq> [] \<and> (\<forall>x\<in>set (c # w). is_digit x) \<and> rest st = (c # w) @ rest st'"
      using d MState Cons by simp
    then show ?thesis by blast
  qed
qed

lemma dot_space_no_match:
  assumes "\<not> (\<exists>d r'. rest st = 46 # d # r' \<and> is_space d)"
  shows "matches ml (Lit ''.'' # Plus Space # r) st = []"
proof (cases st)
  case (MState b s cs)
  show ?thesis
  proof (cases s)
    case Nil
    then show ?thesis using MState by (simp add: js_def)
  next
    case (Cons c s')
    show ?thesis
    proof (cases s')
      case Nil
      then show ?thesis using MState Cons by (simp add: js_def)
    next
      case (Cons d s'')
      then show ?thesis
        using MState \<open>s = c # s'\<close> assms by (auto simp add: js_def)
    qed
  qed
qed

lemma ol_start_digits:
  assumes "ds \<noteq> []" and "\<forall>c\<in>set ds. is_digit c" and "is_space d"
  shows "ol_start (ds @ 46 # d # r)"
proof -
  have "dropWhile is_digit (ds @ 46 # d # r) = 46 # d # r"
    using assms(2) by (simp add: dropWhile_append3 is_digit_def)
  then show ?thesis
    using assms by (cases ds) (simp_all add: ol_start_def)
qed

lemma ol_number_no_match:
  assumes "rest st = [] \<or> \<not> ol_start (rest st)"
  shows "matches ml (Grp n [Plus Digit] # Lit ''.'' # Plus Space # r) st = []"
proof -
  have "matches ml (Lit ''.'' # Plus Space # r) (set_cap n k st') = []"
    if mem: "st' \<in> set (matches ml [Plus Digit] st)" for st' k
  proof (rule dot_space_no_match, rule notI)
    assume "\<exists>d r'. rest (set_cap n k st') = 46 # d # r' \<and> is_space d"
    then obtain d r' where r: "rest st' = 46 # d # r'" and d: "is_space d"
      by (auto simp add: set_cap_def)
    obtain ds where "ds \<noteq> []" and "\<forall>c\<in>set ds. is_digit c" and "rest st = ds @ rest st'"
      using plus_digits [OF mem] by blast
    then have "rest st \<noteq> [] \<and> ol_start (rest st)"
      using r d ol_start_digits by simp
    then show False
      using assms by blast
  qed
  then have "concat (map (matches ml (Lit ''.'' # Plus Space # r))
               (map (set_cap n (pos st)) (matches ml [Plus Digit] st))) = []"
    by (intro concat_map_Nil) (auto simp del: matches.simps match_item.simps)
  then show ?thesis
    by (simp only: matches.simps(2) [of ml "Grp n [Plus Digit]"] match_item.simps(7))
qed

lemma ol_item_no_match:
  assumes "no_line_begins is_space ol_start True (pre @ suf)"
  shows "matches True re_ol_item (MState (rev pre) suf []) = []"
proof (cases "at_bol True (MState (rev pre) suf [])")
  case False
  then show ?thesis by (simp add: re_ol_item_def)
next
  case True
  have lead: "no_line_begins is_space ol_start True (rest (MState (rev pre) suf []))"
    using no_line_begins_at_bol [OF assms True] by simp
  have "matches True (Grp 1 [Plus Digit] # Lit ''.'' # Plus Space # r) st' = []"
    if "st' \<in> set (star_greedy Space (MState (rev pre) suf []))" for st' r
  proof -
    have "no_line_begins is_space ol_start True (rest st')"
      using that lead by (rule star_greedy_Space_lead)
    then have "rest st' = [] \<or> \<not> ol_start (rest st')"
      using no_line_begins_head by blast
    then show ?thesis by (rule ol_number_no_match)
  qed
  then show ?thesis
    unfolding re_ol_item_def matches_Bol_Star using True by (simp only: if_True concat_map_Nil)
qed

lemma no_paragraph_break_suffix:
  "no_paragraph_break (pre @ suf) \<Longrightarrow> no_paragraph_break suf"
proof (induction pre)
  case Nil
  then show ?case by simp
next
  case (Cons a pre)
  then show ?case
    by (cases "pre @ suf" rule: no_paragraph_break.cases) auto
qed

lemma paragraph_no_match:
  assumes "no_paragraph_break (pre @ suf)"
  shows "matches False re_paragraph (MState (rev pre) suf []) = []"
proof -
  have "no_paragraph_break suf"
    using assms by (rule no_paragraph_break_suffix)
  then show ?thesis
    by (cases suf rule: no_paragraph_break.cases) (auto simp add: re_paragraph_def js_def NL_def)
qed

subsection \<open>Newlines and HTML escaping\<close>

lemma newline_match_here:
  "match_here False re_newline b (c # r) =
     (if c = NL then Some (MRes (length b) (Suc (length b)) []) else None)"
  by (simp add: match_here_def re_newline_def js_def NL_def pos_def)

lemma newline_match_here_Nil: "match_here False re_newline b [] = None"
  by (simp add: match_here_def re_newline_def js_def)

lemma replace_scan_newline:
  "replace_scan False re_newline (template [T ''<br>'']) s b r 0 = newlines_to_br r"
  by (induction r arbitrary: b)
    (simp_all add: newline_match_here newline_match_here_Nil newlines_to_br_def
      template_def pieces_text_def)

lemma replace_newline:
  "replace False re_newline (template [T ''<br>'']) s = newlines_to_br s"
  by (simp add: replace_def replace_scan_newline)

lemma escapeHtml_Cons: "escapeHtml (c # t) = escape_char c @ escapeHtml t"
  by (simp add: escapeHtml_def)

lemma escapeHtml_Nil: "escapeHtml [] = []"
  by (simp add: escapeHtml_def)

lemma escape_char_cases:
  "escape_char c = [c] \<and> c \<noteq> AMP \<and> c \<noteq> NBSP \<and> c \<noteq> LT \<and> c \<noteq> GT
   \<or> c = AMP \<and> escape_char c = js ''&amp;''
   \<or> c = NBSP \<and> escape_char c = js ''&nbsp;''
   \<or> c = LT \<and> escape_char c = js ''&lt;''
   \<or> c = GT \<and> escape_char c = js ''&gt;''"
  by (simp add: escape_char_def AMP_def NBSP_def LT_def GT_def)

lemma set_escape_char: "set (escape_char c) \<subseteq> insert c (set (js ''&amp;nbsp;lt;gt;''))"
  using escape_char_cases [of c] by (auto simp add: js_def)

lemma set_escapeHtml: "set (escapeHtml t) \<subseteq> set t \<union> set (js ''&amp;nbsp;lt;gt;'')"
proof (induction t)
  case Nil
  then show ?case by (simp add: escapeHtml_Nil)
next
  case (Cons c t)
  then show ?case
    using set_escape_char [of c] by (auto simp add: escapeHtml_Cons)
qed

lemma escapeHtml_no_angle: "LT \<notin> set (escapeHtml t) \<and> GT \<notin> set (escapeHtml t)"
proof (induction t)
  case Nil
  then show ?case by (simp add: escapeHtml_Nil)
next
  case (Cons c t)
  then show ?case
    using escape_char_cases [of c]
    by (auto simp add: escapeHtml_Cons js_def LT_def GT_def AMP_def NBSP_def)
qed

lemma escapeHtml_keeps_absent:
  assumes "c \<notin> set t" and "c \<notin> set (js ''&amp;nbsp;lt;gt;'')"
  shows "c \<notin> set (escapeHtml t)"
  using assms set_escapeHtml [of t] by blast

lemma escapeHtml_head:
  assumes "escapeHtml u = x # y" and "x \<noteq> AMP"
  shows "\<exists>u'. u = x # u' \<and> y = escapeHtml u'"
proof (cases u)
  case Nil
  then show ?thesis using assms by (simp add: escapeHtml_Nil)
next
  case (Cons c u')
  have eq: "escape_char c @ escapeHtml u' = x # y"
    using assms(1) Cons by (simp add: escapeHtml_Cons)
  have "escape_char c = [c]"
  proof (rule ccontr)
    assume "escape_char c \<noteq> [c]"
    then obtain e where "escape_char c = AMP # e"
      using escape_char_cases [of c] by (auto simp add: js_def AMP_def)
    then show False
      using eq assms(2) by simp
  qed
  then show ?thesis
    using eq Cons by simp
qed

lemma no_line_begins_weaken:
  "no_line_begins skip bad l1 s \<Longrightarrow> l2 \<longrightarrow> l1 \<Longrightarrow> no_line_begins skip bad l2 s"
proof (induction s arbitrary: l1 l2)
  case Nil
  then show ?case by simp
next
  case (Cons c s)
  have "no_line_begins skip bad (is_line_terminator c \<or> l1 \<and> skip c) s"
    using Cons.prems(1) by simp
  moreover have "(is_line_terminator c \<or> l2 \<and> skip c) \<longrightarrow> (is_line_terminator c \<or> l1 \<and> skip c)"
    using Cons.prems(2) by blast
  ultimately have "no_line_begins skip bad (is_line_terminator c \<or> l2 \<and> skip c) s"
    by (rule Cons.IH)
  then show ?case
    using Cons.prems by simp
qed

lemma no_line_begins_entity:
  assumes "\<forall>c\<in>set e. \<not> is_line_terminator c"
  shows "no_line_begins skip bad False (e @ s) = no_line_begins skip bad False s"
  using assms by (induction e) auto

lemma escape_char_entity:
  assumes "escape_char c \<noteq> [c]"
  shows "\<exists>e. escape_char c = AMP # e \<and> (\<forall>x\<in>set e. \<not> is_line_terminator x \<and> x \<noteq> NL \<and> x \<noteq> BACKTICK)"
proof -
  have "escape_char c = js ''&amp;'' \<or> escape_char c = js ''&nbsp;''
      \<or> escape_char c = js ''&lt;'' \<or> escape_char c = js ''&gt;''"
    using assms escape_char_cases [of c] by blast
  then show ?thesis
    by (elim disjE) (simp_all add: js_def AMP_def is_line_terminator_def NL_def BACKTICK_def)
qed

lemma no_line_begins_escapeHtml:
  assumes bad: "\<And>u. bad (escapeHtml u) \<Longrightarrow> bad u"
    and skip: "\<And>c. skip c \<Longrightarrow> is_space c"
  shows "no_line_begins skip bad lead t \<Longrightarrow> no_line_begins skip bad lead (escapeHtml t)"
proof (induction t arbitrary: lead)
  case Nil
  then show ?case by (simp add: escapeHtml_Nil)
next
  case (Cons c t)
  have head: "lead \<longrightarrow> \<not> bad (escapeHtml (c # t))"
    using Cons.prems bad by auto
  have tail: "no_line_begins skip bad (is_line_terminator c \<or> lead \<and> skip c) (escapeHtml t)"
    using Cons.prems Cons.IH by simp
  show ?case
  proof (cases "escape_char c = [c]")
    case True
    then show ?thesis
      using head tail by (simp add: escapeHtml_Cons)
  next
    case False
    then obtain e where e: "escape_char c = AMP # e" "\<forall>x\<in>set e. \<not> is_line_terminator x"
      using escape_char_entity by blast
    have amp: "\<not> is_line_terminator AMP" "\<not> skip AMP"
      using skip [of AMP] by (auto simp add: AMP_def is_line_terminator_def is_space_def)
    have "no_line_begins skip bad False (escapeHtml t)"
      using tail by (rule no_line_begins_weaken) simp
    then have "no_line_begins skip bad False (e @ escapeHtml t)"
      using e(2) by (simp add: no_line_begins_entity)
    then have "no_line_begins skip bad lead (AMP # e @ escapeHtml t)"
      using head e(1) amp by (simp add: escapeHtml_Cons)
    then show ?thesis
      using e(1) by (simp add: escapeHtml_Cons)
  qed
qed

lemma heading_start_escapeHtml: "heading_start (escapeHtml u) \<Longrightarrow> heading_start u"
proof -
  assume h: "heading_start (escapeHtml u)"
  then obtain y where "escapeHtml u = HASH # y"
    by (auto simp add: heading_start_def split: list.splits)
  then obtain u' where "u = HASH # u'"
    using escapeHtml_head [of u HASH y] by (auto simp add: HASH_def AMP_def)
  then show ?thesis
    by (simp add: heading_start_def)
qed

lemma ul_start_escapeHtml: "ul_start (escapeHtml u) \<Longrightarrow> ul_start u"
proof -
  assume h: "ul_start (escapeHtml u)"
  then obtain c d y where e: "escapeHtml u = c # d # y" and c: "c \<in> set (js ''-*+'')" and d: "is_space d"
    by (auto simp add: ul_start_def split: list.splits)
  have "c \<noteq> AMP"
    using c by (auto simp add: js_def AMP_def)
  then obtain u' where u': "u = c # u'" "d # y = escapeHtml u'"
    using escapeHtml_head [OF e] by blast
  have "d \<noteq> AMP"
    using d by (auto simp add: is_space_def AMP_def)
  then obtain u'' where "u' = d # u''"
    using escapeHtml_head [of u' d y] u'(2) by auto
  then show ?thesis
    using u'(1) c d by (simp add: ul_start_def)
qed

lemma dot_space_escapeHtml:
  assumes "escapeHtml u = 46 # d # y" and "is_space d"
  shows "\<exists>u'. u = 46 # d # u'"
proof -
  obtain u' where u': "u = 46 # u'" "d # y = escapeHtml u'"
    using escapeHtml_head [OF assms(1)] by (auto simp add: AMP_def)
  have "d \<noteq> AMP"
    using assms(2) by (auto simp add: is_space_def AMP_def)
  then obtain u'' where "u' = d # u''"
    using escapeHtml_head [of u' d y] u'(2) by auto
  then show ?thesis
    using u'(1) by simp
qed

lemma after_digits_escapeHtml:
  "(case dropWhile is_digit (escapeHtml u) of c # d # _ \<Rightarrow> c = 46 \<and> is_space d | _ \<Rightarrow> False)
   \<Longrightarrow> (case dropWhile is_digit u of c # d # _ \<Rightarrow> c = 46 \<and> is_space d | _ \<Rightarrow> False)"
proof (induction u)
  case Nil
  then show ?case by (simp add: escapeHtml_Nil)
next
  case (Cons c u)
  show ?case
  proof (cases "is_digit c")
    case True
    then have "escape_char c = [c]"
      by (simp add: escape_char_def is_digit_def AMP_def NBSP_def LT_def GT_def)
    then show ?thesis
      using True Cons by (simp add: escapeHtml_Cons)
  next
    case False
    have "\<not> is_digit (hd (escape_char c))"
      using False escape_char_cases [of c] by (auto simp add: js_def is_digit_def)
    moreover have "escape_char c \<noteq> []"
      using escape_char_cases [of c] by (auto simp add: js_def)
    ultimately have "dropWhile is_digit (escapeHtml (c # u)) = escapeHtml (c # u)"
      by (cases "escape_char c") (simp_all add: escapeHtml_Cons)
    then obtain d y where "escapeHtml (c # u) = 46 # d # y" and "is_space d"
      using Cons.prems by (auto split: list.splits)
    then obtain u' where "c # u = 46 # d # u'"
      using dot_space_escapeHtml by blast
    then show ?thesis
      using \<open>is_space d\<close> by (simp add: is_digit_def)
  qed
qed

lemma ol_start_escapeHtml: "ol_start (escapeHtml u) \<Longrightarrow> ol_start u"
proof -
  assume h: "ol_start (escapeHtml u)"
  then obtain c y where e: "escapeHtml u = c # y" and c: "is_digit c"
    by (auto simp add: ol_start_def split: list.splits)
  have "c \<noteq> AMP"
    using c by (auto simp add: is_digit_def AMP_def)
  then obtain u' where "u = c # u'"
    using escapeHtml_head [OF e] by blast
  then show ?thesis
    using h c after_digits_escapeHtml [of u] by (simp add: ol_start_def)
qed

subsection \<open>Paragraph breaks and runs of backticks\<close>

lemma no_paragraph_break_skip:
  "c \<noteq> NL \<Longrightarrow> no_paragraph_break (c # s) = no_paragraph_break s"
  by (cases s rule: no_paragraph_break.cases) auto

lemma breaks_after_eq:
  "breaks_after 0 s = no_paragraph_break s
   \<and> breaks_after (Suc 0) s = no_paragraph_break (NL # s)
   \<and> breaks_after (Suc (Suc 0)) s = (s = [])"
proof (induction s)
  case Nil
  then show ?case by simp
next
  case (Cons c s)
  show ?case
  proof (cases "c = NL")
    case True
    then show ?thesis
      using Cons by (cases s) auto
  next
    case False
    then show ?thesis
      using Cons by (cases s) (auto simp add: no_paragraph_break_skip)
  qed
qed

lemma breaks_after_entity:
  assumes "\<forall>x\<in>set e. x \<noteq> NL"
  shows "breaks_after 0 (e @ s) = breaks_after 0 s"
  using assms by (induction e) auto

lemma breaks_after_escapeHtml:
  "breaks_after n t \<Longrightarrow> breaks_after n (escapeHtml t)"
proof (induction t arbitrary: n)
  case Nil
  then show ?case by (simp add: escapeHtml_Nil)
next
  case (Cons c t)
  show ?case
  proof (cases "escape_char c = [c]")
    case True
    then show ?thesis
      using Cons by (simp add: escapeHtml_Cons)
  next
    case False
    then obtain e where e: "escape_char c = AMP # e"
      "\<forall>x\<in>set e. \<not> is_line_terminator x \<and> x \<noteq> NL \<and> x \<noteq> BACKTICK"
      using escape_char_entity by blast
    have "c \<noteq> NL"
      using False by (auto simp add: escape_char_def NL_def AMP_def NBSP_def LT_def GT_def)
    then have "breaks_after 0 (escapeHtml t)"
      using Cons by simp
    then have "breaks_after 0 (e @ escapeHtml t)"
      using e(2) by (simp add: breaks_after_entity)
    then show ?thesis
      using Cons.prems e(1) by (simp add: escapeHtml_Cons AMP_def NL_def)
  qed
qed

lemma no_paragraph_break_escapeHtml:
  "no_paragraph_break t \<Longrightarrow> no_paragraph_break (escapeHtml t)"
  using breaks_after_escapeHtml [of 0 t] breaks_after_eq by simp

lemma one_run_absent: "BACKTICK \<notin> set s \<Longrightarrow> one_run ph s"
  by (induction s arbitrary: ph) auto

lemma one_run_2: "one_run 2 s \<Longrightarrow> BACKTICK \<notin> set s"
  by (induction s) (auto split: if_splits)

lemma one_run_in_run: "BACKTICK \<notin> set (dropWhile (\<lambda>c. c = BACKTICK) s) \<Longrightarrow> one_run (Suc 0) s"
  by (induction s) (auto simp add: one_run_absent)

lemma one_run_dropWhile: "backticks_in_one_run s \<Longrightarrow> one_run 0 s"
  unfolding backticks_in_one_run_def
  by (induction s) (auto simp add: one_run_in_run)

lemma one_run_suffix: "one_run ph (pre @ suf) \<Longrightarrow> \<exists>ph'. one_run ph' suf"
proof (induction pre arbitrary: ph)
  case Nil
  then show ?case by auto
next
  case (Cons c pre)
  then show ?case by (auto split: if_splits)
qed

lemma one_run_after_gap:
  "one_run (Suc 0) (u @ s) \<Longrightarrow> BACKTICK \<notin> set u \<Longrightarrow> u \<noteq> [] \<Longrightarrow> BACKTICK \<notin> set s"
proof (induction u)
  case Nil
  then show ?case by simp
next
  case (Cons c u)
  have "one_run 2 (u @ s)"
    using Cons.prems by simp
  then show ?case
    using one_run_2 by fastforce
qed

lemma one_run_entity:
  assumes "\<forall>x\<in>set e. x \<noteq> BACKTICK"
  shows "one_run (if ph = 0 then 0 else 2) (e @ s) = one_run (if ph = 0 then 0 else 2) s"
  using assms by (induction e) auto

lemma one_run_escapeHtml: "one_run ph t \<Longrightarrow> one_run ph (escapeHtml t)"
proof (induction t arbitrary: ph)
  case Nil
  then show ?case by (simp add: escapeHtml_Nil)
next
  case (Cons c t)
  show ?case
  proof (cases "escape_char c = [c]")
    case True
    then show ?thesis
      using Cons by (auto simp add: escapeHtml_Cons split: if_splits)
  next
    case False
    then obtain e where e: "escape_char c = AMP # e"
      "\<forall>x\<in>set e. \<not> is_line_terminator x \<and> x \<noteq> NL \<and> x \<noteq> BACKTICK"
      using escape_char_entity by blast
    have "c \<noteq> BACKTICK"
      using False by (auto simp add: escape_char_def BACKTICK_def AMP_def NBSP_def LT_def GT_def)
    then have "one_run (if ph = 0 then 0 else 2) (escapeHtml t)"
      using Cons by simp
    then have "one_run (if ph = 0 then 0 else 2) (e @ escapeHtml t)"
      using e(2) one_run_entity by blast
    then show ?thesis
      using e(1) by (simp add: escapeHtml_Cons AMP_def BACKTICK_def)
  qed
qed

subsection \<open>Code patterns on a text with one run of backticks\<close>

lemma lit_step_prefix: "st' \<in> set (lit_step l st) \<Longrightarrow> rest st = l @ rest st'"
  by (induction l st rule: lit_step.induct) (auto split: if_splits)

lemma lit_step_needs_char:
  assumes "c \<in> set l" and "c \<notin> set (rest st)"
  shows "lit_step l st = []"
proof (rule ccontr)
  assume "lit_step l st \<noteq> []"
  then obtain st' where "st' \<in> set (lit_step l st)"
    by (cases "lit_step l st") auto
  then have "rest st = l @ rest st'"
    by (rule lit_step_prefix)
  then show False
    using assms by auto
qed

lemma matches_needs_char:
  assumes "c \<in> set (js l)" and "c \<notin> set (rest st)"
  shows "matches ml (r1 @ Lit l # r2) st = []"
proof -
  have "matches ml (Lit l # r2) st' = []" if "st' \<in> set (matches ml r1 st)" for st'
  proof -
    have "advanced st st'"
      using that matches_advanced(1) by blast
    then have "c \<notin> set (rest st')"
      using assms(2) by (auto simp add: advanced_def)
    with assms(1) have "lit_step (js l) st' = []"
      by (rule lit_step_needs_char)
    then show ?thesis by simp
  qed
  then show ?thesis
    by (simp add: matches_append concat_map_Nil)
qed

lemma plus_class:
  assumes "st' \<in> set (matches ml [Plus cl] st)"
  shows "\<exists>w. w \<noteq> [] \<and> (\<forall>c\<in>set w. cmatch cl c) \<and> rest st = w @ rest st'"
proof (cases st)
  case (MState b s cs)
  show ?thesis
  proof (cases s)
    case Nil
    then show ?thesis using assms MState by simp
  next
    case (Cons c s')
    then have d: "cmatch cl c" and "st' \<in> set (star_greedy cl (MState (c # b) s' cs))"
      using assms MState by (auto split: if_splits)
    then obtain w where "s' = w @ rest st'" and "\<forall>c\<in>set w. cmatch cl c"
      using star_greedy_class by fastforce
    then have "c # w \<noteq> [] \<and> (\<forall>x\<in>set (c # w). cmatch cl x) \<and> rest st = (c # w) @ rest st'"
      using d MState Cons by simp
    then show ?thesis by blast
  qed
qed

lemma inline_code_no_match:
  assumes "one_run ph suf"
  shows "matches False re_inline_code (MState b suf []) = []"
proof (cases "\<exists>r. suf = BACKTICK # r")
  case False
  then show ?thesis
    by (cases suf) (auto simp add: re_inline_code_def js_def BACKTICK_def)
next
  case True
  then obtain r where suf: "suf = BACKTICK # r"
    by blast
  then have run: "one_run (Suc 0) r"
    using assms by simp
  have "matches False [Lit ''`''] (set_cap n k st') = []"
    if mem: "st' \<in> set (matches False [Plus (NoneOf ''`'')] (MState (BACKTICK # b) r []))" for st' n k
  proof -
    obtain w where w: "w \<noteq> []" "\<forall>c\<in>set w. cmatch (NoneOf ''`'') c" "r = w @ rest st'"
      using plus_class [OF mem] by auto
    have "BACKTICK \<notin> set w"
      using w(2) by (auto simp add: js_def BACKTICK_def)
    then have "BACKTICK \<notin> set (rest st')"
      using run w one_run_after_gap by blast
    then have "lit_step (js ''`'') (set_cap n k st') = []"
      by (intro lit_step_needs_char [of BACKTICK]) (simp_all add: js_def BACKTICK_def set_cap_def)
    then show ?thesis by simp
  qed
  then have "concat (map (matches False [Lit ''`''])
               (map (set_cap 1 (pos (MState (BACKTICK # b) r [])))
                  (matches False [Plus (NoneOf ''`'')] (MState (BACKTICK # b) r [])))) = []"
    by (intro concat_map_Nil) (auto simp del: matches.simps match_item.simps)
  then have "matches False [Grp 1 [Plus (NoneOf ''`'')], Lit ''`''] (MState (BACKTICK # b) r []) = []"
    by (simp only: matches.simps(2) [of False "Grp 1 [Plus (NoneOf ''`'')]"] match_item.simps(7))
  moreover have "lit_step (js ''`'') (MState b suf []) = [MState (BACKTICK # b) r []]"
    using suf by (simp add: js_def BACKTICK_def)
  ultimately show ?thesis
    by (simp add: re_inline_code_def del: matches.simps(2) [of False "Grp 1 [Plus (NoneOf ''`'')]"]
      add: matches.simps(2) [of False "Lit ''`''"])
qed

lemma code_block_no_match:
  assumes "one_run ph suf"
  shows "matches False re_code_block (MState b suf []) = []"
proof -
  let ?tail = "[Grp 2 [LazyStar Any], Lit ''\<newline>```'']"
  have tail: "matches False ?tail st3 = []"
    if a1: "st1 \<in> set (lit_step (js ''```'') (MState b suf []))"
      and a2: "st2 \<in> set (star_greedy (Range CHR ''a'' CHR ''z'') st1)"
      and a3: "st3 \<in> set (lit_step (js ''\<newline>'') (set_cap n k st2))" for st1 st2 st3 n k
  proof -
    have "suf = js ''```'' @ rest st1"
      using a1 lit_step_prefix by fastforce
    then have run: "one_run (Suc 0) (rest st1)"
      using assms by (simp add: js_def BACKTICK_def)
    obtain w where w: "rest st1 = w @ rest st2" "\<forall>c\<in>set w. cmatch (Range CHR ''a'' CHR ''z'') c"
      using star_greedy_class [OF a2] by blast
    have "rest st2 = js ''\<newline>'' @ rest st3"
      using a3 lit_step_prefix [of st3 "js ''\<newline>''" "set_cap n k st2"]
      by (simp add: set_cap_def)
    then have "rest st1 = (w @ [NL]) @ rest st3"
      using w(1) by (simp add: js_def NL_def)
    moreover have "BACKTICK \<notin> set (w @ [NL])"
      using w(2) by (auto simp add: BACKTICK_def NL_def)
    ultimately have "BACKTICK \<notin> set (rest st3)"
      using run one_run_after_gap [of "w @ [NL]" "rest st3"] by simp
    then show ?thesis
      using matches_needs_char [of BACKTICK "''\<newline>```''" st3 False "[Grp 2 [LazyStar Any]]" "[]"]
      by (simp add: js_def BACKTICK_def del: matches.simps match_item.simps)
  qed
  have "matches False (Lit ''\<newline>'' # ?tail) (set_cap n k st2) = []"
    if "st1 \<in> set (lit_step (js ''```'') (MState b suf []))"
      and "st2 \<in> set (star_greedy (Range CHR ''a'' CHR ''z'') st1)" for st1 st2 n k
    using tail [OF that]
    by (simp only: matches.simps(2) [of False "Lit ''\<newline>''"] match_item.simps(1) concat_map_Nil)
  then have "matches False (Grp 1 [Star (Range CHR ''a'' CHR ''z'')] # Lit ''\<newline>'' # ?tail) st1 = []"
    if "st1 \<in> set (lit_step (js ''```'') (MState b suf []))" for st1
    using that
    by (simp add: concat_map_Nil del: matches.simps(2) [of False "Lit ''\<newline>''"] lit_step.simps)
  then show ?thesis
    unfolding re_code_block_def
    by (simp only: matches.simps(2) [of False "Lit ''```''"] match_item.simps(1) concat_map_Nil)
qed

subsection \<open>Steps that change nothing\<close>

lemma group_first_no_match: "matches ml r st = [] \<Longrightarrow> matches ml (Grp n r # r') st = []"
  by simp

lemma set_suffix: "c \<notin> set (pre @ suf) \<Longrightarrow> c \<notin> set suf"
  by simp

lemma step_code_block: "one_run 0 h \<Longrightarrow> replace False re_code_block rep h = h"
  by (rule replace_no_match) (metis code_block_no_match one_run_suffix)

lemma step_inline_code: "one_run 0 h \<Longrightarrow> replace False re_inline_code rep h = h"
  by (rule replace_no_match) (metis inline_code_no_match one_run_suffix)

lemma step_lacks_char:
  assumes "c \<in> set (js l)" and "c \<notin> set h"
  shows "replace ml (r1 @ Lit l # r2) rep h = h"
proof (rule replace_no_match)
  fix pre suf
  assume "h = pre @ suf"
  then have "c \<notin> set (rest (MState (rev pre) suf []))"
    using assms(2) by simp
  with assms(1) show "matches ml (r1 @ Lit l # r2) (MState (rev pre) suf []) = []"
    by (rule matches_needs_char)
qed

lemma step_bold: "ASTERISK \<notin> set h \<Longrightarrow> replace False re_bold rep h = h"
  using step_lacks_char [of ASTERISK "''**''" h False "[]"]
  by (simp add: re_bold_def js_def ASTERISK_def)

lemma step_italic: "ASTERISK \<notin> set h \<Longrightarrow> replace False re_italic rep h = h"
  using step_lacks_char [of ASTERISK "''*''" h False "[]"]
  by (simp add: re_italic_def js_def ASTERISK_def)

lemma step_ul_item:
  "no_line_begins is_space ul_start True h \<Longrightarrow> replace True re_ul_item rep h = h"
  by (rule replace_no_match) (simp add: ul_item_no_match)

lemma step_ol_item:
  "no_line_begins is_space ol_start True h \<Longrightarrow> replace True re_ol_item rep h = h"
  by (rule replace_no_match) (simp add: ol_item_no_match)

lemma step_heading:
  "no_line_begins (\<lambda>c. False) heading_start True h \<Longrightarrow> of_char x = HASH
   \<Longrightarrow> replace True (re_heading (x # xs)) rep h = h"
  by (rule replace_no_match) (simp add: heading_no_match)

lemma step_paragraph: "no_paragraph_break h \<Longrightarrow> replace False re_paragraph rep h = h"
  by (rule replace_no_match) (simp add: paragraph_no_match)

lemma lt_li: "LT \<in> set (js ''<li>'')" "LT \<in> set (js ''</li>'')" "LT \<in> set (js ''<p>'')"
  by (simp_all add: js_def LT_def)

lemma step_li_join: "LT \<notin> set h \<Longrightarrow> replace False re_li_join rep h = h"
  unfolding re_li_join_def
proof (rule replace_no_match)
  fix pre suf
  assume "LT \<notin> set h" and "h = pre @ suf"
  then have "LT \<notin> set (rest (MState (rev pre) suf []))"
    by simp
  then have "matches False ([] @ Lit ''<li>'' # [LazyStar Dot, Lit ''</li>'']) (MState (rev pre) suf []) = []"
    using lt_li(1) by (intro matches_needs_char [of LT])
  then show "matches False [Grp 1 [Lit ''<li>'', LazyStar Dot, Lit ''</li>''], Lit ''\<newline>'',
      Grp 2 [Lit ''<li>'']] (MState (rev pre) suf []) = []"
    by (intro group_first_no_match) simp
qed

lemma step_li_open: "LT \<notin> set h \<Longrightarrow> replace False re_li_open rep h = h"
  using step_lacks_char [of LT "''<li>''" h False "[Grp 1 [Alt [[Bol], [Cls (NoneOf ''<'')]]]]" "[]"]
  by (simp add: re_li_open_def js_def LT_def)

lemma step_li_close: "LT \<notin> set h \<Longrightarrow> replace False re_li_close rep h = h"
  using step_lacks_char [of LT "''</li>''" h False "[]"]
  by (simp add: re_li_close_def js_def LT_def)

lemma step_ol_join: "LT \<notin> set h \<Longrightarrow> replace False re_ol_join rep h = h"
  using step_lacks_char [of LT "''<li>''" h False "[NotBehind (OneOf ''\<newline>'')]"]
  by (simp add: re_ol_join_def js_def LT_def)

lemma step_p_unwrap: "LT \<notin> set h \<Longrightarrow> replace False re_p_unwrap rep h = h"
  using step_lacks_char [of LT "''<p>''" h False "[]"]
  by (simp add: re_p_unwrap_def js_def LT_def)

lemma hash_chars: "of_char CHR ''#'' = HASH"
  by (simp add: HASH_def)

lemma fold_plain:
  assumes r: "one_run 0 h" and a: "ASTERISK \<notin> set h" and l: "LT \<notin> set h"
    and hd: "no_line_begins (\<lambda>c. False) heading_start True h"
    and ul: "no_line_begins is_space ul_start True h"
    and ol: "no_line_begins is_space ol_start True h"
    and p: "no_paragraph_break h"
  shows "foldl run_step h markdown_steps = newlines_to_br h"
  unfolding markdown_steps_def foldl.simps run_step.simps
  unfolding step_code_block [OF r] step_inline_code [OF r] step_bold [OF a]
        step_italic [OF a] step_ul_item [OF ul] step_li_join [OF l] step_li_open [OF l]
        step_li_close [OF l] step_ol_item [OF ol] step_ol_join [OF l]
        step_heading [OF hd hash_chars] step_paragraph [OF p] step_p_unwrap [OF l]
        replace_newline
  by (rule refl)

lemma render_plain:
  assumes run: "one_run 0 t" and lines: "plain_lines t" and para: "no_paragraph_break t"
  shows "advancedMarkdownToHtml (Str t) = escaped_text t"
proof (cases "t = []")
  case True
  then show ?thesis
    by (simp add: escaped_text_def escapeHtml_Nil newlines_to_br_def trim_Nil)
next
  case False
  define h where "h = escapeHtml t"
  have r: "one_run 0 h"
    unfolding h_def using run by (rule one_run_escapeHtml)
  have a: "ASTERISK \<notin> set h"
    unfolding h_def using lines escapeHtml_keeps_absent [of ASTERISK t]
    by (simp add: plain_lines_def js_def ASTERISK_def)
  have l: "LT \<notin> set h"
    unfolding h_def by (simp add: escapeHtml_no_angle)
  have hd: "no_line_begins (\<lambda>c. False) heading_start True h"
    unfolding h_def using lines
      no_line_begins_escapeHtml [of heading_start "\<lambda>c. False" True t, OF heading_start_escapeHtml]
    by (simp add: plain_lines_def)
  have ul: "no_line_begins is_space ul_start True h"
    unfolding h_def using lines
      no_line_begins_escapeHtml [of ul_start is_space True t, OF ul_start_escapeHtml]
    by (simp add: plain_lines_def)
  have ol: "no_line_begins is_space ol_start True h"
    unfolding h_def using lines
      no_line_begins_escapeHtml [of ol_start is_space True t, OF ol_start_escapeHtml]
    by (simp add: plain_lines_def)
  have p: "no_paragraph_break h"
    unfolding h_def using para by (rule no_paragraph_break_escapeHtml)
  have "foldl run_step h markdown_steps = newlines_to_br h"
    using r a l hd ul ol p by (rule fold_plain)
  then show ?thesis
    using False by (simp add: h_def escaped_text_def)
qed

subsection \<open>Rendering of plain text\<close>

lemmas eval_plain = markdown_free_def plain_lines_def backticks_in_one_run_def
  heading_start_def ul_start_def ol_start_def escaped_text_def newlines_to_br_def
  needs_no_escape_def BACKTICK_def ASTERISK_def HASH_def NL_def eval_chars escapeHtml_def
  escape_char_def trim_def

lemma escapeHtml_id: "needs_no_escape t \<Longrightarrow> escapeHtml t = t"
  by (induction t) (auto simp add: escapeHtml_Nil escapeHtml_Cons escape_char_def needs_no_escape_def)

lemma newlines_to_br_id: "NL \<notin> set t \<Longrightarrow> newlines_to_br t = t"
  by (induction t) (auto simp add: newlines_to_br_def)

lemma no_newline_no_break: "NL \<notin> set t \<Longrightarrow> no_paragraph_break t"
  by (induction t rule: no_paragraph_break.induct) auto

lemma set_trim: "set (trim t) \<subseteq> set t"
  unfolding trim_def by (metis set_dropWhileD set_rev subsetI)

text \<open>
  Claim C3, as stated, fails for a text with a blank line: \<^verbatim>\<open>a\<close>, two newlines and
  \<^verbatim>\<open>b\<close> contain no markdown token, and the paragraph step wraps \<^verbatim>\<open>b\<close> in \<^verbatim>\<open><p>\<close>, so
  the result is not the escaped text with its newlines replaced.
\<close>

theorem blank_line_counterexample:
  "markdown_free (js ''a\<newline>\<newline>b'')
   \<and> advancedMarkdownToHtml (Str (js ''a\<newline>\<newline>b'')) = js ''a<br><br><p>b</p>''
   \<and> escaped_text (js ''a\<newline>\<newline>b'') = js ''a<br><br>b''
   \<and> advancedMarkdownToHtml (Str (js ''a\<newline>\<newline>b''))
       \<noteq> escaped_text (js ''a\<newline>\<newline>b'')"
proof -
  have a: "markdown_free (js ''a\<newline>\<newline>b'')"
    by (simp add: eval_plain)
  have b: "advancedMarkdownToHtml (Str (js ''a\<newline>\<newline>b'')) = js ''a<br><br><p>b</p>''"
    by (simp add: eval_markdown)
  have c: "escaped_text (js ''a\<newline>\<newline>b'') = js ''a<br><br>b''"
    by (simp add: eval_plain)
  have "js ''a<br><br><p>b</p>'' \<noteq> js ''a<br><br>b''"
    by (simp add: js_def)
  then show ?thesis
    unfolding b c using a by simp
qed

text \<open>
  Claim C3, amended. For every raw text that contains no markdown token (no backtick, no
  asterisk, no line that begins with \<^verbatim>\<open>#\<close>, an unordered-list marker or an ordered-list
  number) and in which no two consecutive newlines are followed by further text,
  \<^verbatim>\<open>advancedMarkdownToHtml\<close> returns the HTML-escaped form of the text with every newline
  replaced by \<^verbatim>\<open><br>\<close>, trimmed; no \<^verbatim>\<open><p>\<close> and no other tag is introduced.
\<close>

theorem plain_text_rendering:
  assumes "markdown_free t" and "no_paragraph_break t"
  shows "advancedMarkdownToHtml (Str t) = escaped_text t"
  using assms by (intro render_plain) (simp_all add: markdown_free_def one_run_absent)

theorem plain_text_rendering_witness:
  "markdown_free (js ''a < b\<newline>& c'') \<and> no_paragraph_break (js ''a < b\<newline>& c'')
   \<and> advancedMarkdownToHtml (Str (js ''a < b\<newline>& c'')) = js ''a &lt; b<br>&amp; c''"
proof -
  have a: "markdown_free (js ''a < b\<newline>& c'')"
    by (simp add: eval_plain)
  have b: "no_paragraph_break (js ''a < b\<newline>& c'')"
    by (simp add: eval_plain)
  have c: "escaped_text (js ''a < b\<newline>& c'') = js ''a &lt; b<br>&amp; c''"
    by (simp add: eval_plain)
  show ?thesis
    using plain_text_rendering [OF a b] a b c by (simp del: advancedMarkdownToHtml.simps)
qed

text \<open>
  Claim C7, as stated, fails: the escaping step escapes every \<^verbatim>\<open>&\<close> again. The text
  \<^verbatim>\<open>&\<close> is free of markdown, renders to \<^verbatim>\<open>&amp;\<close>, and that renders to
  \<^verbatim>\<open>&amp;amp;\<close>.
\<close>

theorem double_escape_counterexample:
  "markdown_free (js ''&'')
   \<and> advancedMarkdownToHtml (Str (js ''&'')) = js ''&amp;''
   \<and> advancedMarkdownToHtml (Str (js ''&amp;'')) = js ''&amp;amp;''
   \<and> advancedMarkdownToHtml (Str (advancedMarkdownToHtml (Str (js ''&''))))
       \<noteq> advancedMarkdownToHtml (Str (js ''&''))"
proof -
  have a: "markdown_free (js ''&'')"
    by (simp add: eval_plain)
  have b: "advancedMarkdownToHtml (Str (js ''&'')) = js ''&amp;''"
    by (simp add: eval_markdown)
  have c: "advancedMarkdownToHtml (Str (js ''&amp;'')) = js ''&amp;amp;''"
    by (simp add: eval_markdown)
  have "js ''&amp;amp;'' \<noteq> js ''&amp;''"
    by (simp add: js_def)
  then show ?thesis
    unfolding b c using a by simp
qed

text \<open>
  Claim C7, amended. For every text that is free of markdown tokens, also after trimming,
  and contains none of \<^verbatim>\<open>&\<close>, \<^verbatim>\<open><\<close>, \<^verbatim>\<open>>\<close>, U+00A0 and newline, the renderer
  returns the trimmed text, and rendering its output again returns the same. (Where the
  escaping step has something to escape, it escapes it again on every application.)
\<close>

theorem render_idempotent_plain:
  assumes "markdown_free t" and "markdown_free (trim t)" and "needs_no_escape t"
    and "NL \<notin> set t"
  shows "advancedMarkdownToHtml (Str t) = trim t
       \<and> advancedMarkdownToHtml (Str (advancedMarkdownToHtml (Str t)))
           = advancedMarkdownToHtml (Str t)"
proof -
  have plain: "advancedMarkdownToHtml (Str u) = trim u"
    if "markdown_free u" and "needs_no_escape u" and "NL \<notin> set u" for u
  proof -
    have "advancedMarkdownToHtml (Str u) = escaped_text u"
      using that by (intro render_plain) (simp_all add: markdown_free_def one_run_absent no_newline_no_break)
    then show ?thesis
      using that by (simp add: escaped_text_def escapeHtml_id newlines_to_br_id)
  qed
  have "needs_no_escape (trim t)" and "NL \<notin> set (trim t)"
    using assms(3,4) set_trim [of t] by (auto simp add: needs_no_escape_def)
  then have "advancedMarkdownToHtml (Str (trim t)) = trim (trim t)"
    using assms(2) by (intro plain)
  then show ?thesis
    using plain [OF assms(1,3,4)] by (simp add: trim_trim)
qed

theorem render_idempotent_plain_witness:
  "markdown_free (js '' x = 1 '') \<and> markdown_free (trim (js '' x = 1 ''))
   \<and> needs_no_escape (js '' x = 1 '') \<and> NL \<notin> set (js '' x = 1 '')
   \<and> advancedMarkdownToHtml (Str (js '' x = 1 '')) = js ''x = 1''
   \<and> advancedMarkdownToHtml (Str (js ''x = 1'')) = js ''x = 1''"
proof -
  have a: "markdown_free (js '' x = 1 '')"
    by (simp add: eval_plain)
  have t: "trim (js '' x = 1 '') = js ''x = 1''"
    by (simp add: eval_plain)
  have b: "markdown_free (trim (js '' x = 1 ''))"
    unfolding t by (simp add: eval_plain)
  have c: "needs_no_escape (js '' x = 1 '')"
    by (simp add: eval_plain)
  have d: "NL \<notin> set (js '' x = 1 '')"
    by (simp add: eval_plain)
  note r = render_idempotent_plain [OF a b c d]
  have r1: "advancedMarkdownToHtml (Str (js '' x = 1 '')) = js ''x = 1''"
    using r t by (simp del: advancedMarkdownToHtml.simps)
  have "advancedMarkdownToHtml (Str (advancedMarkdownToHtml (Str (js '' x = 1 ''))))
          = advancedMarkdownToHtml (Str (js '' x = 1 ''))"
    using r by (rule conjunct2)
  then have r2: "advancedMarkdownToHtml (Str (js ''x = 1'')) = js ''x = 1''"
    unfolding r1 .
  show ?thesis
    using a b c d r1 r2 by (simp del: advancedMarkdownToHtml.simps)
qed

text \<open>
  Claim C5, as stated, fails for a fence that is closed by two backticks only: the fence
  is not left as literal text, the inline-code step matches from its third backtick to
  the first closing one.
\<close>

theorem malformed_fence_counterexample:
  "advancedMarkdownToHtml (Str (js ''```\<newline>x\<newline>``'')) = js ''``<code><br>x<br></code>`''
   \<and> escaped_text (js ''```\<newline>x\<newline>``'') = js ''```<br>x<br>``''
   \<and> advancedMarkdownToHtml (Str (js ''```\<newline>x\<newline>``''))
       \<noteq> escaped_text (js ''```\<newline>x\<newline>``'')"
proof -
  have b: "advancedMarkdownToHtml (Str (js ''```\<newline>x\<newline>``''))
      = js ''``<code><br>x<br></code>`''"
    by (simp add: eval_markdown)
  have c: "escaped_text (js ''```\<newline>x\<newline>``'') = js ''```<br>x<br>``''"
    by (simp add: eval_plain)
  have "js ''``<code><br>x<br></code>`'' \<noteq> js ''```<br>x<br>``''"
    by (simp add: js_def)
  then show ?thesis
    unfolding b c by simp
qed

text \<open>
  Claim C5, amended. \<^verbatim>\<open>advancedMarkdownToHtml\<close> is total (the model has no failing
  branch, because no operation of the source can raise): \<^verbatim>\<open>undefined\<close>, \<^verbatim>\<open>null\<close> and
  the empty string give the empty string, and a text whose backticks all lie in one
  run (an opening fence that is never closed) and which has no other markdown token and
  no paragraph break is left as literal escaped text, with its newlines replaced by
  \<^verbatim>\<open><br>\<close>, trimmed. The backticks of other malformed fences can still be matched as
  inline code.
\<close>

theorem unterminated_fence_literal:
  "advancedMarkdownToHtml Undefined = [] \<and> advancedMarkdownToHtml Null = []
   \<and> advancedMarkdownToHtml (Str []) = []
   \<and> (backticks_in_one_run t \<and> plain_lines t \<and> no_paragraph_break t
        \<longrightarrow> advancedMarkdownToHtml (Str t) = escaped_text t)"
proof -
  have "advancedMarkdownToHtml (Str t) = escaped_text t"
    if "backticks_in_one_run t" and "plain_lines t" and "no_paragraph_break t"
    using that by (intro render_plain one_run_dropWhile)
  moreover have "advancedMarkdownToHtml (Str []) = []"
    by simp
  ultimately show ?thesis
    by (simp del: advancedMarkdownToHtml.simps(1))
qed

theorem unterminated_fence_literal_witness:
  "backticks_in_one_run (js ''```python\<newline>print(1)'')
   \<and> plain_lines (js ''```python\<newline>print(1)'')
   \<and> no_paragraph_break (js ''```python\<newline>print(1)'')
   \<and> advancedMarkdownToHtml (Str (js ''```python\<newline>print(1)'')) = js ''```python<br>print(1)''"
proof -
  have a: "backticks_in_one_run (js ''```python\<newline>print(1)'')"
    by (simp add: eval_plain)
  have b: "plain_lines (js ''```python\<newline>print(1)'')"
    by (simp add: eval_plain)
  have c: "no_paragraph_break (js ''```python\<newline>print(1)'')"
    by (simp add: eval_plain)
  have d: "escaped_text (js ''```python\<newline>print(1)'') = js ''```python<br>print(1)''"
    by (simp add: eval_plain)
  show ?thesis
    using unterminated_fence_literal [of "js ''```python\<newline>print(1)''"] a b c d
    by (simp del: advancedMarkdownToHtml.simps)
qed

subsection \<open>Where the angle brackets of the output come from\<close>

lemma map_fst_substring: "map fst (substring ls sp) = substring (map fst ls) sp"
  by (cases sp) (simp add: take_map drop_map)

lemma map_fst_piece: "map fst (piece_text_traced ls p) = piece_text (map fst ls) p"
  by (cases p) (simp_all add: map_fst_substring o_def)

lemma map_fst_pieces: "map fst (pieces_text_traced ls ps) = pieces_text (map fst ls) ps"
  by (induction ps) (simp_all add: pieces_text_traced_def pieces_text_def map_fst_piece)

lemma map_fst_replace_scan:
  "map fst (replace_scan_traced ml re rep ls b r skip)
     = replace_scan ml re rep (map fst ls) b (map fst r) skip"
  by (induction r arbitrary: b skip) (auto simp add: map_fst_pieces split: option.splits)

lemma map_fst_replace:
  "map fst (replace_traced ml re rep ls) = replace ml re rep (map fst ls)"
  by (simp add: replace_traced_def replace_def map_fst_replace_scan)

lemma map_fst_run_step: "map fst (run_step_traced ls st) = run_step (map fst ls) st"
  by (cases st) (simp add: map_fst_replace)

lemma map_fst_foldl:
  "map fst (foldl run_step_traced ls sts) = foldl run_step (map fst ls) sts"
  by (induction sts arbitrary: ls) (simp_all add: map_fst_run_step)

lemma map_fst_dropWhile:
  "map fst (dropWhile (\<lambda>x. P (fst x)) xs) = dropWhile P (map fst xs)"
  by (induction xs) auto

lemma map_fst_trim: "map fst (trim_traced ls) = trim (map fst ls)"
proof -
  let ?P = "\<lambda>x. is_space (fst x)"
  have "map fst (trim_traced ls) = rev (map fst (dropWhile ?P (rev (dropWhile ?P ls))))"
    by (simp add: trim_traced_def rev_map)
  also have "\<dots> = rev (dropWhile is_space (map fst (rev (dropWhile ?P ls))))"
    by (simp only: map_fst_dropWhile)
  also have "\<dots> = rev (dropWhile is_space (rev (map fst (dropWhile ?P ls))))"
    by (simp only: rev_map)
  also have "\<dots> = trim (map fst ls)"
    by (simp only: map_fst_dropWhile trim_def)
  finally show ?thesis .
qed

lemma map_fst_escapeHtml: "map fst (escapeHtml_traced t) = escapeHtml t"
  by (simp add: escapeHtml_traced_def o_def)

lemma traced_erasure: "map fst (advancedMarkdownToHtml_traced v) = advancedMarkdownToHtml v"
  by (cases v) (simp_all add: map_fst_trim map_fst_foldl map_fst_escapeHtml)

lemma set_substring: "set (substring ls sp) \<subseteq> set ls"
  by (cases sp) (auto dest: in_set_takeD in_set_dropD)

lemma renderer_markup_piece:
  "renderer_markup ls \<Longrightarrow> renderer_markup (piece_text_traced ls p)"
  using set_substring [of ls] by (cases p) (auto simp add: renderer_markup_def)

lemma renderer_markup_append:
  "renderer_markup (xs @ ys) \<longleftrightarrow> renderer_markup xs \<and> renderer_markup ys"
  by (auto simp add: renderer_markup_def)

lemma renderer_markup_Cons:
  "renderer_markup (x # xs) \<longleftrightarrow> (fst x = LT \<or> fst x = GT \<longrightarrow> snd x = FromRenderer) \<and> renderer_markup xs"
  by (auto simp add: renderer_markup_def)

lemma renderer_markup_Nil: "renderer_markup []"
  by (simp add: renderer_markup_def)

lemma renderer_markup_pieces:
  "renderer_markup ls \<Longrightarrow> renderer_markup (pieces_text_traced ls ps)"
  by (induction ps)
    (simp_all add: pieces_text_traced_def renderer_markup_Nil renderer_markup_append
      renderer_markup_piece)

lemma renderer_markup_replace_scan:
  "renderer_markup ls \<Longrightarrow> renderer_markup r
   \<Longrightarrow> renderer_markup (replace_scan_traced ml re rep ls b r skip)"
  by (induction r arbitrary: b skip)
    (auto simp add: renderer_markup_Nil renderer_markup_append renderer_markup_Cons
      renderer_markup_pieces split: option.splits)

lemma renderer_markup_replace:
  "renderer_markup ls \<Longrightarrow> renderer_markup (replace_traced ml re rep ls)"
  by (simp add: replace_traced_def renderer_markup_replace_scan)

lemma renderer_markup_foldl:
  "renderer_markup ls \<Longrightarrow> renderer_markup (foldl run_step_traced ls sts)"
proof (induction sts arbitrary: ls)
  case Nil
  then show ?case by simp
next
  case (Cons st sts)
  have "renderer_markup (run_step_traced ls st)"
    using Cons.prems by (cases st) (simp add: renderer_markup_replace)
  then show ?case
    using Cons.IH by simp
qed

lemma renderer_markup_trim: "renderer_markup ls \<Longrightarrow> renderer_markup (trim_traced ls)"
  unfolding renderer_markup_def trim_traced_def
  by (metis set_dropWhileD set_rev)

lemma renderer_markup_escapeHtml: "renderer_markup (escapeHtml_traced t)"
  using escapeHtml_no_angle [of t] by (auto simp add: renderer_markup_def escapeHtml_traced_def)

text \<open>
  Claim C1. For every input, the traced renderer returns the characters of
  \<^verbatim>\<open>advancedMarkdownToHtml\<close>, and every \<^verbatim>\<open><\<close> and \<^verbatim>\<open>>\<close> among them was supplied
  by a replacement of the renderer: none comes from the input, because the raw input is
  escaped as a whole before the first replacement, and escaped text has no \<^verbatim>\<open><\<close> or
  \<^verbatim>\<open>>\<close>.
\<close>

theorem markup_from_renderer_only:
  "map fst (advancedMarkdownToHtml_traced v) = advancedMarkdownToHtml v
   \<and> (\<forall>x\<in>set (advancedMarkdownToHtml_traced v).
         fst x = LT \<or> fst x = GT \<longrightarrow> snd x = FromRenderer)
   \<and> LT \<notin> set (escapeHtml t) \<and> GT \<notin> set (escapeHtml t)"
proof -
  have "renderer_markup (advancedMarkdownToHtml_traced v)"
    by (cases v)
      (simp_all add: renderer_markup_Nil renderer_markup_trim renderer_markup_foldl
        renderer_markup_escapeHtml)
  then show ?thesis
    by (simp add: traced_erasure renderer_markup_def escapeHtml_no_angle
        del: advancedMarkdownToHtml.simps advancedMarkdownToHtml_traced.simps)
qed

theorem markup_from_renderer_only_witness:
  "map fst (advancedMarkdownToHtml_traced (Str (js ''<*x*''))) = js ''&lt;<em>x</em>''
   \<and> (LT, FromRenderer) \<in> set (advancedMarkdownToHtml_traced (Str (js ''<*x*'')))
   \<and> (LT, FromInput) \<notin> set (advancedMarkdownToHtml_traced (Str (js ''<*x*'')))"
proof -
  note t = markup_from_renderer_only [of "Str (js ''<*x*'')" "js ''<*x*''"]
  have e: "advancedMarkdownToHtml (Str (js ''<*x*'')) = js ''&lt;<em>x</em>''"
    by (simp add: eval_markdown)
  have m: "map fst (advancedMarkdownToHtml_traced (Str (js ''<*x*''))) = js ''&lt;<em>x</em>''"
    using t e by (simp del: advancedMarkdownToHtml.simps advancedMarkdownToHtml_traced.simps)
  have "LT \<in> set (map fst (advancedMarkdownToHtml_traced (Str (js ''<*x*''))))"
    unfolding m by (simp add: js_def LT_def)
  then obtain x where x: "x \<in> set (advancedMarkdownToHtml_traced (Str (js ''<*x*'')))" "fst x = LT"
    by auto
  then have "snd x = FromRenderer"
    using t by blast
  then have "(LT, FromRenderer) \<in> set (advancedMarkdownToHtml_traced (Str (js ''<*x*'')))"
    using x by (metis prod.collapse)
  moreover have "(LT, FromInput) \<notin> set (advancedMarkdownToHtml_traced (Str (js ''<*x*'')))"
    using t by fastforce
  ultimately show ?thesis
    using m by blast
qed

subsection \<open>The captures are spans of the input\<close>

lemma rev_dropWhile_rev:
  "rev (dropWhile P (rev u)) = take (length u - length (takeWhile P (rev u))) u"
proof -
  have "rev u = takeWhile P (rev u) @ dropWhile P (rev u)"
    by simp
  then have "u = rev (dropWhile P (rev u)) @ rev (takeWhile P (rev u))"
    by (metis rev_append rev_rev_ident)
  then have "take (length (rev (dropWhile P (rev u)))) u = rev (dropWhile P (rev u))"
    by (metis append_eq_conv_conj)
  moreover have "length (rev (dropWhile P (rev u))) = length u - length (takeWhile P (rev u))"
    by (metis \<open>rev u = takeWhile P (rev u) @ dropWhile P (rev u)\<close> add_diff_cancel_left'
        length_append length_rev)
  ultimately show ?thesis by simp
qed

lemma trim_span_text:
  assumes "a \<le> b" and "b \<le> length s"
  shows "substring s (trim_span s (a, b)) = trim (substring s (a, b))"
proof -
  define t where "t = take (b - a) (drop a s)"
  define lead where "lead = length (takeWhile is_space t)"
  define u where "u = drop lead t"
  define trail where "trail = length (takeWhile is_space (rev u))"
  have lt: "length t = b - a"
    using assms by (simp add: t_def)
  have ll: "lead \<le> b - a"
    using lt length_takeWhile_le [of is_space t] by (simp add: lead_def)
  have u: "dropWhile is_space t = u"
    by (simp add: u_def lead_def dropWhile_eq_drop)
  have "trim t = take (length u - trail) u"
    by (simp add: trim_def u trail_def rev_dropWhile_rev)
  also have "\<dots> = take (b - a - lead - trail) (drop lead (take (b - a) (drop a s)))"
    using lt by (simp add: u_def t_def)
  also have "\<dots> = take (b - trail - (a + lead)) (drop (a + lead) s)"
    using ll by (simp add: drop_take add.commute min_def)
  finally show ?thesis
    by (simp add: t_def lead_def u_def trail_def Let_def)
qed

lemma advanced_pos:
  assumes "advanced st st'"
  shows "pos st \<le> pos st' \<and> pos st' + length (rest st') = pos st + length (rest st)"
  using assms by (auto simp add: advanced_def pos_def)

lemma lit_step_caps: "st' \<in> set (lit_step l st) \<Longrightarrow> caps st' = caps st"
  by (induction l st rule: lit_step.induct) (auto split: if_splits)

lemma cls_step_caps: "st' \<in> set (cls_step cl st) \<Longrightarrow> caps st' = caps st"
  by (induction cl st rule: cls_step.induct) (auto split: if_splits)

lemma star_greedy_caps: "st' \<in> set (star_greedy cl st) \<Longrightarrow> caps st' = caps st"
  by (induction cl st rule: star_greedy.induct) (auto split: if_splits)

lemma star_lazy_caps: "st' \<in> set (star_lazy cl st) \<Longrightarrow> caps st' = caps st"
  by (induction cl st rule: star_lazy.induct) (auto split: if_splits)

lemma caps_ok_same:
  assumes "caps_ok st" and "advanced st st'" and "caps st' = caps st"
  shows "caps_ok st'"
  using assms advanced_pos [of st st'] by (simp add: caps_ok_def)

lemma caps_ok_set_cap:
  assumes "caps_ok st'" and "advanced st st'"
  shows "caps_ok (set_cap n (pos st) st')"
  using assms advanced_pos [of st st'] by (auto simp add: caps_ok_def set_cap_def pos_def)

lemma caps_ok_ahead:
  assumes "caps_ok st'" and "advanced st st'"
  shows "caps_ok (MState (before st) (rest st) (caps st'))"
  using assms advanced_pos [of st st'] by (auto simp add: caps_ok_def pos_def)

lemma matches_caps_ok:
  "caps_ok st \<Longrightarrow> (\<forall>st'\<in>set (matches ml r st). caps_ok st')"
  "caps_ok st \<Longrightarrow> (\<forall>st'\<in>set (match_item ml i st). caps_ok st')"
  "caps_ok st \<Longrightarrow> (\<forall>st'\<in>set (match_alts ml rs st). caps_ok st')"
proof (induction ml r st and ml i st and ml rs st rule: matches_match_item_match_alts.induct)
  case (1 ml st)
  then show ?case by simp
next
  case (2 ml i r st)
  then show ?case by auto
next
  case (3 ml l st)
  then show ?case
    by (auto intro: caps_ok_same lit_step_advanced lit_step_caps)
next
  case (4 ml cl st)
  then show ?case
    by (auto intro: caps_ok_same cls_step_advanced cls_step_caps)
next
  case (5 ml cl st)
  then show ?case
    by (auto intro: caps_ok_same star_greedy_advanced star_greedy_caps)
next
  case (6 ml cl st)
  have "caps_ok st''" if "st' \<in> set (cls_step cl st)" "st'' \<in> set (star_greedy cl st')" for st' st''
  proof -
    have "caps_ok st'"
      using 6 that(1) by (auto intro: caps_ok_same cls_step_advanced cls_step_caps)
    then show ?thesis
      using that(2) by (auto intro: caps_ok_same star_greedy_advanced star_greedy_caps)
  qed
  then show ?case by auto
next
  case (7 ml cl st)
  then show ?case
    by (auto intro: caps_ok_same star_lazy_advanced star_lazy_caps)
next
  case (8 ml cl st)
  have "caps_ok st''" if "st' \<in> set (cls_step cl st)" "st'' \<in> set (star_lazy cl st')" for st' st''
  proof -
    have "caps_ok st'"
      using 8 that(1) by (auto intro: caps_ok_same cls_step_advanced cls_step_caps)
    then show ?thesis
      using that(2) by (auto intro: caps_ok_same star_lazy_advanced star_lazy_caps)
  qed
  then show ?case by auto
next
  case (9 ml n r st)
  then show ?case
    using matches_advanced(1) [of ml r st] by (auto intro: caps_ok_set_cap)
next
  case (10 ml rs st)
  then show ?case by simp
next
  case (11 ml st)
  then show ?case by simp
next
  case (12 ml st)
  then show ?case by simp
next
  case (13 ml r st)
  show ?case
  proof (cases "matches ml r st")
    case Nil
    then show ?thesis by simp
  next
    case (Cons st' sts)
    then have "st' \<in> set (matches ml r st)"
      by simp
    then have "caps_ok st'" and "advanced st st'"
      using 13 matches_advanced(1) [of ml r st] by auto
    then show ?thesis
      using Cons by (simp add: caps_ok_ahead)
  qed
next
  case (14 ml r st)
  then show ?case by (auto split: list.splits)
next
  case (15 ml cl st)
  then show ?case by (auto split: list.splits if_splits)
next
  case (16 ml st)
  then show ?case by simp
next
  case (17 ml r rs st)
  then show ?case by auto
qed

lemma match_here_spans:
  assumes "match_here ml re (rev pre) suf = Some m"
  shows "fst (group m n) \<le> snd (group m n) \<and> snd (group m n) \<le> length (pre @ suf)"
proof -
  obtain st sts where st: "matches ml re (MState (rev pre) suf []) = st # sts"
    and m: "m = MRes (length (rev pre)) (pos st) (caps st)"
    using assms by (auto simp add: match_here_def split: list.splits)
  have "caps_ok (MState (rev pre) suf [])"
    by (simp add: caps_ok_def)
  then have ok: "caps_ok st"
    using matches_caps_ok(1) st by (metis list.set_intros(1))
  have "advanced (MState (rev pre) suf []) st"
    using matches_advanced(1) st by (metis list.set_intros(1))
  then have len: "pos st + length (rest st) = length (pre @ suf)"
    using advanced_pos by (fastforce simp add: pos_def)
  show ?thesis
  proof (cases "map_of (caps st) n")
    case None
    then show ?thesis
      using m by (simp add: group_def)
  next
    case (Some ab)
    then have "(n, ab) \<in> set (caps st)"
      by (rule map_of_SomeD)
    then show ?thesis
      using ok len m Some by (cases ab) (auto simp add: caps_ok_def group_def)
  qed
qed

text \<open>
  The text that the two replacer functions return, in the words of the source:
  \<^verbatim>\<open>code.trim()\<close> is the trimmed text of the second group.
\<close>

lemma code_block_replacer_text:
  assumes "match_here ml re (rev pre) suf = Some m" and "s = pre @ suf"
  shows \<open>pieces_text s (code_block_replacer s m) =
           js ''<pre><code''
           @ (if group_text s m 1 = [] then []
              else js '' class="language-'' @ group_text s m 1 @ js ''"'')
           @ js ''>'' @ trim (group_text s m 2) @ js ''</code></pre>''\<close>
proof -
  obtain a b where ab: "group m 2 = (a, b)"
    by (cases "group m 2")
  then have "a \<le> b" and "b \<le> length s"
    using match_here_spans [OF assms(1), of 2] assms(2) by simp_all
  then have "substring s (trim_span s (group m 2)) = trim (group_text s m 2)"
    unfolding ab group_text_def by (rule trim_span_text)
  then show ?thesis
    by (simp add: code_block_replacer_def pieces_text_def group_text_def Let_def
        del: trim_span.simps substring.simps)
qed

lemma paragraph_replacer_text:
  \<open>pieces_text s (paragraph_replacer s m) =
     (let content = group_text s m 1
      in if startsWith (trim content) (js ''<'')
            \<or> includes_str content (js ''</'')
            \<or> includes_str content (js ''<li>'')
            \<or> includes_str content (js ''<code>'')
         then js ''\<newline>\<newline>'' @ content
         else js ''\<newline>\<newline><p>'' @ content @ js ''</p>'')\<close>
  by (simp add: paragraph_replacer_def pieces_text_def group_text_def Let_def
      del: substring.simps)

subsection \<open>Further renderings\<close>

text \<open>
  What the chain of replacements makes of an unordered list followed by a paragraph, of
  an ordered list, of a heading with two paragraphs, and of inline markup next to HTML.
\<close>

lemma render_unordered_list:
  "advancedMarkdownToHtml (Str (js ''- a\<newline>- b\<newline>\<newline>text''))
     = js ''<ul><ol><li>a</li><ul><ol><li>b</li></ul><br>text''"
  by (simp add: eval_markdown)

lemma render_ordered_list:
  "advancedMarkdownToHtml (Str (js ''1. a\<newline>2. b''))
     = js ''<ol><li><li>a</li></ol><ol><li>b</li></ol>''"
  by (simp add: eval_markdown)

lemma render_heading_and_paragraph:
  "advancedMarkdownToHtml (Str (js ''# H\<newline>para\<newline>\<newline>para2''))
     = js ''<h1>H</h1><br>para<br><br><p>para2</p>''"
  by (simp add: eval_markdown)

lemma render_inline:
  "advancedMarkdownToHtml (Str (js ''<b>*x*</b> & **bold** `c`''))
     = js ''&lt;b&gt;<em>x</em>&lt;/b&gt; &amp; <strong>bold</strong> <code>c</code>''"
  by (simp add: eval_markdown)

end
